theory Spec2Isabelle
  imports Main "HOL-Library.Word"
begin

unbundle bit_operations_syntax

section \<open>Data model\<close>

text \<open>
  The C type \<^verbatim>\<open>unsigned\<close> is a 32-bit word: addition and subtraction wrap around.
  Memory reached through a pointer is a function from byte offsets (relative to the
  pointer) to bytes. The structure \<^verbatim>\<open>ijcringbuffer\<close> borrows its storage, so the
  field \<open>data\<close> is the storage seen from the base pointer. The fields \<^verbatim>\<open>size\<close> and
  \<^verbatim>\<open>mask\<close> carry the suffix \<open>_rb\<close>, since both names are constants of HOL.
\<close>

type_synonym u32 = "32 word"
type_synonym u8 = "8 word"
type_synonym bytes = "nat \<Rightarrow> u8"

datatype error = AssertionFailed

record ijcringbuffer =
  data :: bytes
  size_rb :: u32
  mask_rb :: u32
  read_cursor :: u32
  write_cursor :: u32
  wrap_cursor :: u32

text \<open>\<^verbatim>\<open>memcpy(dst + off, src, n)\<close>: the \<open>n\<close> bytes at \<open>src\<close> land at offsets
  \<open>off, ..., off + n - 1\<close> of \<open>dst\<close>; every other byte keeps its value.\<close>

definition memcpy :: "bytes \<Rightarrow> nat \<Rightarrow> bytes \<Rightarrow> nat \<Rightarrow> bytes" where
  "memcpy dst off src n = (\<lambda>i. if off \<le> i \<and> i < off + n then src (i - off) else dst i)"

section \<open>Operations\<close>

text \<open>\<^verbatim>\<open>IJCRB_assert\<close> is \<^verbatim>\<open>assert\<close>: a failed assertion ends the call with
  \<open>Inl AssertionFailed\<close>.\<close>

definition ijcringbuffer__difference :: "u32 \<Rightarrow> u32 \<Rightarrow> u32" where
  "ijcringbuffer__difference a b =
     (let ab = a - b; ba = b - a in if ab > ba then ba else ab)"

definition ijcringbuffer_init :: "bytes \<Rightarrow> u32 \<Rightarrow> error + ijcringbuffer" where
  "ijcringbuffer_init d data_size =
     (if data_size > 0 \<and> data_size AND (data_size - 1) = 0
      then Inr \<lparr>data = d, size_rb = data_size, mask_rb = data_size - 1,
                read_cursor = 0, write_cursor = 0, wrap_cursor = 0\<rparr>
      else Inl AssertionFailed)"

definition ijcringbuffer_reset :: "ijcringbuffer \<Rightarrow> ijcringbuffer" where
  "ijcringbuffer_reset self = self\<lparr>read_cursor := 0, write_cursor := 0, wrap_cursor := 0\<rparr>"

definition ijcringbuffer__is_split :: "ijcringbuffer \<Rightarrow> bool" where
  "ijcringbuffer__is_split self =
     (ijcringbuffer__difference (read_cursor self) (write_cursor self) > size_rb self)"

text \<open>\<^verbatim>\<open>ijcringbuffer_peek\<close> returns \<^verbatim>\<open>self->data + peek_rc\<close>; the model returns the
  offset \<^verbatim>\<open>peek_rc\<close>. The function has no assignment to the structure or the storage.\<close>

definition ijcringbuffer_peek :: "ijcringbuffer \<Rightarrow> u32" where
  "ijcringbuffer_peek self =
     (if read_cursor self = wrap_cursor self \<and> ijcringbuffer__is_split self
      then 0
      else read_cursor self AND mask_rb self)"

text \<open>The value of the local variable \<^verbatim>\<open>cs\<close> of \<^verbatim>\<open>ijcringbuffer__consumeable_size\<close>
  when the final assertion is reached.\<close>

definition consumeable_size_cs :: "ijcringbuffer \<Rightarrow> bool \<Rightarrow> u32" where
  "consumeable_size_cs self continuous =
     (if ijcringbuffer__is_split self then
        (if read_cursor self = wrap_cursor self then
           (let masked_write = write_cursor self AND mask_rb self
            in if masked_write \<noteq> 0 then masked_write else size_rb self)
         else
           ((wrap_cursor self - read_cursor self) AND mask_rb self)
             + (if continuous then 0 else (write_cursor self AND mask_rb self)))
      else write_cursor self - read_cursor self)"

definition ijcringbuffer__consumeable_size :: "ijcringbuffer \<Rightarrow> bool \<Rightarrow> error + u32" where
  "ijcringbuffer__consumeable_size self continuous =
     (if ijcringbuffer__is_split self \<and> read_cursor self \<noteq> wrap_cursor self
         \<and> \<not> (size_rb self > ijcringbuffer__difference (wrap_cursor self) (read_cursor self))
      then Inl AssertionFailed
      else if size_rb self \<ge> consumeable_size_cs self continuous
      then Inr (consumeable_size_cs self continuous)
      else Inl AssertionFailed)"

definition ijcringbuffer_consumeable_size_continuous :: "ijcringbuffer \<Rightarrow> error + u32" where
  "ijcringbuffer_consumeable_size_continuous self = ijcringbuffer__consumeable_size self True"

definition ijcringbuffer_consumeable_size :: "ijcringbuffer \<Rightarrow> error + u32" where
  "ijcringbuffer_consumeable_size self = ijcringbuffer__consumeable_size self False"

definition ijcringbuffer_consume :: "ijcringbuffer \<Rightarrow> u32 \<Rightarrow> error + ijcringbuffer" where
  "ijcringbuffer_consume self sz =
     (case ijcringbuffer_consumeable_size_continuous self of
        Inl e \<Rightarrow> Inl e
      | Inr c \<Rightarrow>
          if \<not> (c \<ge> sz) then Inl AssertionFailed
          else if read_cursor self = wrap_cursor self \<and> ijcringbuffer__is_split self
          then Inr (self\<lparr>read_cursor := read_cursor self
                      + (size_rb self + (size_rb self - (read_cursor self AND mask_rb self)) + sz)\<rparr>)
          else Inr (self\<lparr>read_cursor := read_cursor self + sz\<rparr>))"

definition ijcringbuffer_is_empty :: "ijcringbuffer \<Rightarrow> bool" where
  "ijcringbuffer_is_empty self = (write_cursor self = read_cursor self)"

definition ijcringbuffer_is_full :: "ijcringbuffer \<Rightarrow> error + bool" where
  "ijcringbuffer_is_full self =
     (case ijcringbuffer_consumeable_size self of
        Inl e \<Rightarrow> Inl e
      | Inr c \<Rightarrow> Inr (c = size_rb self))"

text \<open>The block at the label \<^verbatim>\<open>write_to_front\<close>: remember where the tail ends, copy to
  offset 0, inflate the write cursor, check the post-condition, return 1.\<close>

definition write_to_front :: "ijcringbuffer \<Rightarrow> bytes \<Rightarrow> u32 \<Rightarrow> error + ijcringbuffer \<times> int" where
  "write_to_front self indata insize =
     (let masked_write = write_cursor self AND mask_rb self;
          self1 = self\<lparr>wrap_cursor := write_cursor self\<rparr>;
          self2 = self1\<lparr>data := memcpy (data self1) 0 indata (unat insize)\<rparr>;
          self3 = self2\<lparr>write_cursor := write_cursor self2
                    + (size_rb self2 + (size_rb self2 - masked_write) + insize)\<rparr>
      in if (write_cursor self3 AND mask_rb self3) = insize
         then Inr (self3, 1)
         else Inl AssertionFailed)"

text \<open>The code from the label \<^verbatim>\<open>check_front\<close> to the end of the function.\<close>

definition check_front :: "ijcringbuffer \<Rightarrow> bytes \<Rightarrow> u32 \<Rightarrow> error + ijcringbuffer \<times> int" where
  "check_front self indata insize =
     (if (read_cursor self AND mask_rb self) \<ge> insize
      then write_to_front self indata insize
      else Inr (self, 0))"

definition ijcringbuffer_produce :: "ijcringbuffer \<Rightarrow> bytes \<Rightarrow> u32 \<Rightarrow> error + ijcringbuffer \<times> int" where
  "ijcringbuffer_produce self indata insize =
     (let masked_write = write_cursor self AND mask_rb self in
      if ijcringbuffer__is_split self then
        (if wrap_cursor self = read_cursor self then
           (let avail_write_size = (if masked_write \<noteq> 0 then size_rb self - masked_write else 0)
            in if avail_write_size \<ge> insize
               then Inr (self\<lparr>data := memcpy (data self) (unat masked_write) indata (unat insize),
                              write_cursor := write_cursor self + insize\<rparr>, 1)
               else Inr (self, 0))
         else if \<not> ((read_cursor self AND mask_rb self) \<ge> (write_cursor self AND mask_rb self))
         then Inl AssertionFailed
         else
           (let avail_write_size = (read_cursor self - write_cursor self) AND mask_rb self
            in if avail_write_size \<ge> insize
               then Inr (self\<lparr>data := memcpy (data self) (unat masked_write) indata (unat insize),
                              write_cursor := write_cursor self + insize\<rparr>, 1)
               else Inr (self, 0)))
      else
        (let is_empty = ijcringbuffer_is_empty self in
         if masked_write \<noteq> 0 \<and> is_empty \<and> size_rb self \<ge> insize
         then write_to_front self indata insize
         else if masked_write = 0 \<and> \<not> is_empty
         then check_front self indata insize
         else if (size_rb self - masked_write) \<ge> insize
         then Inr (self\<lparr>data := memcpy (data self) (unat masked_write) indata (unat insize),
                        write_cursor := write_cursor self + insize\<rparr>, 1)
         else check_front self indata insize))"

section \<open>Call sequences and reachable states\<close>

datatype call = Produce bytes u32 | Consume u32 | Reset

fun step :: "ijcringbuffer \<Rightarrow> call \<Rightarrow> error + ijcringbuffer" where
  "step s (Produce d n) =
     (case ijcringbuffer_produce s d n of Inl e \<Rightarrow> Inl e | Inr (s', rc) \<Rightarrow> Inr s')"
| "step s (Consume n) = ijcringbuffer_consume s n"
| "step s Reset = Inr (ijcringbuffer_reset s)"

fun run :: "ijcringbuffer \<Rightarrow> call list \<Rightarrow> error + ijcringbuffer" where
  "run s [] = Inr s"
| "run s (c # cs) = (case step s c of Inl e \<Rightarrow> Inl e | Inr s' \<Rightarrow> run s' cs)"

definition run_init :: "bytes \<Rightarrow> u32 \<Rightarrow> call list \<Rightarrow> error + ijcringbuffer" where
  "run_init d n cs = (case ijcringbuffer_init d n of Inl e \<Rightarrow> Inl e | Inr s \<Rightarrow> run s cs)"

text \<open>
  \<open>reach P s\<close>: the state \<open>s\<close> is produced by a sequence of calls that starts with
  \<^verbatim>\<open>ijcringbuffer_init\<close>, in which no call has failed an assertion and every length
  given to \<^verbatim>\<open>ijcringbuffer_produce\<close> satisfies \<open>P\<close>. A call of
  \<^verbatim>\<open>ijcringbuffer_consume\<close> that returns has respected its precondition.
\<close>

inductive reach :: "(u32 \<Rightarrow> bool) \<Rightarrow> ijcringbuffer \<Rightarrow> bool" for P :: "u32 \<Rightarrow> bool" where
  reach_init: "ijcringbuffer_init d n = Inr s \<Longrightarrow> reach P s"
| reach_reset: "reach P s \<Longrightarrow> reach P (ijcringbuffer_reset s)"
| reach_produce: "reach P s \<Longrightarrow> P n \<Longrightarrow> ijcringbuffer_produce s d n = Inr (s', rc) \<Longrightarrow> reach P s'"
| reach_consume: "reach P s \<Longrightarrow> ijcringbuffer_consume s n = Inr s' \<Longrightarrow> reach P s'"

definition reachable :: "ijcringbuffer \<Rightarrow> bool" where
  "reachable s = reach (\<lambda>n. True) s"

text \<open>States reached without any zero-length \<^verbatim>\<open>ijcringbuffer_produce\<close>.\<close>

definition reachable_nonzero :: "ijcringbuffer \<Rightarrow> bool" where
  "reachable_nonzero s = reach (\<lambda>n. n \<noteq> 0) s"

section \<open>Well-formed states and the design invariant\<close>

text \<open>What the assertion of \<^verbatim>\<open>ijcringbuffer_init\<close> establishes and no operation changes.\<close>

definition well_formed :: "ijcringbuffer \<Rightarrow> bool" where
  "well_formed s = (size_rb s \<noteq> 0 \<and> size_rb s AND (size_rb s - 1) = 0 \<and> mask_rb s = size_rb s - 1)"

text \<open>The capacity as a natural number, and the physical offset of a cursor.\<close>

definition cap :: "ijcringbuffer \<Rightarrow> nat" where
  "cap s = unat (size_rb s)"

definition phys :: "ijcringbuffer \<Rightarrow> u32 \<Rightarrow> nat" where
  "phys s x = unat (x AND mask_rb s)"

text \<open>
  In a split buffer the tail run holds \<open>tail_len\<close> unread bytes, which end where the
  write cursor stood when the buffer was split (\<open>wrap_cursor\<close>), and the front run
  holds \<open>front_len\<close> bytes from offset 0: the write cursor is \<open>wrap_cursor\<close> advanced
  to the next multiple of the capacity, plus the capacity, plus \<open>front_len\<close>.
\<close>

definition tail_len :: "ijcringbuffer \<Rightarrow> nat" where
  "tail_len s = unat (wrap_cursor s - read_cursor s)"

definition front_len :: "ijcringbuffer \<Rightarrow> nat" where
  "front_len s =
     unat (write_cursor s - wrap_cursor s - 2 * size_rb s + (wrap_cursor s AND mask_rb s))"

definition unsplit_inv :: "ijcringbuffer \<Rightarrow> bool" where
  "unsplit_inv s =
     (unat (write_cursor s - read_cursor s) \<le> cap s \<and>
      (write_cursor s \<noteq> read_cursor s \<longrightarrow>
         phys s (read_cursor s) + unat (write_cursor s - read_cursor s) \<le> cap s))"

definition split_inv :: "ijcringbuffer \<Rightarrow> bool" where
  "split_inv s =
     (1 \<le> front_len s \<and>
      (if tail_len s = 0 then front_len s \<le> cap s
       else front_len s \<le> phys s (read_cursor s) \<and>
            phys s (read_cursor s) + tail_len s \<le> cap s))"

definition design_inv :: "ijcringbuffer \<Rightarrow> bool" where
  "design_inv s = (well_formed s \<and> size_rb s \<le> 2 ^ 29 \<and> (unsplit_inv s \<or> split_inv s))"

text \<open>
  What holds of every state reached by calls that return, whatever the capacity and the
  lengths given to \<^verbatim>\<open>ijcringbuffer_produce\<close>. The write cursor is \<open>lead\<close> ahead of the read
  cursor. In a buffer that the code sees as split, with less than \<open>size\<close> bytes between the
  read cursor and \<open>wrap_cursor\<close>, the front run holds at most \<open>size\<close> bytes, and fewer than
  \<open>size\<close> while the tail is not drained. In a buffer that is not split and whose stored bytes
  cross the physical end of the storage, \<open>wrap_cursor\<close> is far from the read cursor.
\<close>

definition lead :: "ijcringbuffer \<Rightarrow> nat" where
  "lead s = unat (write_cursor s - read_cursor s)"

definition cursor_inv :: "ijcringbuffer \<Rightarrow> bool" where
  "cursor_inv s =
     (well_formed s \<and>
      (size_rb s \<le> 2 ^ 30 \<longrightarrow>
         (ijcringbuffer__is_split s \<and> tail_len s < cap s \<longrightarrow>
            front_len s \<le> cap s \<and> (tail_len s \<noteq> 0 \<longrightarrow> front_len s < cap s)) \<and>
         (0 < lead s \<and> lead s \<le> cap s \<and> cap s < phys s (read_cursor s) + lead s \<longrightarrow>
            2 * cap s \<le> tail_len s + phys s (read_cursor s))))"

section \<open>The size formulas as the specification words them\<close>

text \<open>
  The specification gives the circular distance of two counters as the smaller of the two
  modular differences, calls the buffer split when the circular distance of the read and
  the write cursor exceeds the capacity, and gives each size by three cases.
\<close>

definition spec_circular_distance :: "u32 \<Rightarrow> u32 \<Rightarrow> u32" where
  "spec_circular_distance a b = min (a - b) (b - a)"

definition spec_is_split :: "ijcringbuffer \<Rightarrow> bool" where
  "spec_is_split s = (spec_circular_distance (read_cursor s) (write_cursor s) > size_rb s)"

definition spec_consumable_size_continuous :: "ijcringbuffer \<Rightarrow> u32" where
  "spec_consumable_size_continuous s =
     (if \<not> spec_is_split s then write_cursor s - read_cursor s
      else if read_cursor s = wrap_cursor s
      then (if write_cursor s AND mask_rb s \<noteq> 0 then write_cursor s AND mask_rb s else size_rb s)
      else (wrap_cursor s - read_cursor s) AND mask_rb s)"

definition spec_consumable_size :: "ijcringbuffer \<Rightarrow> u32" where
  "spec_consumable_size s =
     (if \<not> spec_is_split s then write_cursor s - read_cursor s
      else if read_cursor s = wrap_cursor s
      then (if write_cursor s AND mask_rb s \<noteq> 0 then write_cursor s AND mask_rb s else size_rb s)
      else ((wrap_cursor s - read_cursor s) AND mask_rb s) + (write_cursor s AND mask_rb s))"

section \<open>Concrete inputs\<close>

text \<open>Test data: the bytes of a list, a zeroed region, and the array \<^verbatim>\<open>hex\<close> of the
  repository's test.\<close>

definition bytes_of :: "u8 list \<Rightarrow> bytes" where
  "bytes_of xs i = (if i < length xs then xs ! i else 0)"

definition zero_bytes :: bytes where
  "zero_bytes i = 0"

definition hex :: bytes where
  "hex = bytes_of [48, 49, 50, 51, 52, 53, 54, 55, 56, 57, 97, 98, 99, 100, 101, 102]"

definition abc :: bytes where
  "abc = bytes_of [97, 98, 99]"

definition xyz :: bytes where
  "xyz = bytes_of [120, 121, 122]"

fun nonzero_call :: "call \<Rightarrow> bool" where
  "nonzero_call (Produce d n) = (n \<noteq> 0)"
| "nonzero_call (Consume n) = True"
| "nonzero_call Reset = True"

text \<open>Capacity 8, after \<^verbatim>\<open>produce(hex, 8)\<close>: the buffer is full.\<close>

definition full8 :: ijcringbuffer where
  "full8 = \<lparr>data = memcpy zero_bytes 0 hex 8, size_rb = 8, mask_rb = 7,
            read_cursor = 0, write_cursor = 8, wrap_cursor = 0\<rparr>"

text \<open>Capacity 8, after \<^verbatim>\<open>produce(abc, 3)\<close>.\<close>

definition abc8 :: ijcringbuffer where
  "abc8 = \<lparr>data = memcpy zero_bytes 0 abc 3, size_rb = 8, mask_rb = 7,
           read_cursor = 0, write_cursor = 3, wrap_cursor = 0\<rparr>"

text \<open>Capacity 8, after \<^verbatim>\<open>produce(abc, 3); produce(xyz, 3)\<close>.\<close>

definition abcxyz8 :: ijcringbuffer where
  "abcxyz8 = \<lparr>data = memcpy (memcpy zero_bytes 0 abc 3) 3 xyz 3, size_rb = 8, mask_rb = 7,
              read_cursor = 0, write_cursor = 6, wrap_cursor = 0\<rparr>"

text \<open>Capacity 8, after \<^verbatim>\<open>produce(hex, 4); consume(4)\<close>: empty, both cursors at 4.\<close>

definition drained8 :: ijcringbuffer where
  "drained8 = \<lparr>data = memcpy zero_bytes 0 hex 4, size_rb = 8, mask_rb = 7,
               read_cursor = 4, write_cursor = 4, wrap_cursor = 0\<rparr>"

text \<open>Capacity 8, after \<^verbatim>\<open>produce(hex, 4); consume(4); produce(abc, 3)\<close>: the three bytes
  went to the front of the storage.\<close>

definition restart8 :: ijcringbuffer where
  "restart8 = \<lparr>data = memcpy (memcpy zero_bytes 0 hex 4) 0 abc 3, size_rb = 8, mask_rb = 7,
               read_cursor = 4, write_cursor = 19, wrap_cursor = 4\<rparr>"

text \<open>Capacity 8, after \<^verbatim>\<open>produce(hex, 4); consume(4); produce(hex, 4); produce(hex, 4)\<close>:
  split, the tail is drained and the front run fills the whole storage.\<close>

definition front_full8 :: ijcringbuffer where
  "front_full8 = \<lparr>data = memcpy (memcpy (memcpy zero_bytes 0 hex 4) 0 hex 4) 4 hex 4,
                  size_rb = 8, mask_rb = 7,
                  read_cursor = 4, write_cursor = 24, wrap_cursor = 4\<rparr>"

text \<open>Capacity 8, after \<^verbatim>\<open>produce(hex, 8); produce(hex, 0)\<close>.\<close>

definition full_then_zero8 :: ijcringbuffer where
  "full_then_zero8 = \<lparr>data = memcpy (memcpy zero_bytes 0 hex 8) 0 hex 0, size_rb = 8, mask_rb = 7,
                      read_cursor = 0, write_cursor = 24, wrap_cursor = 8\<rparr>"

text \<open>Capacity 4, after \<^verbatim>\<open>produce(hex, 4); produce(hex, 0)\<close>.\<close>

definition full_then_zero4 :: ijcringbuffer where
  "full_then_zero4 = \<lparr>data = memcpy (memcpy zero_bytes 0 hex 4) 0 hex 0, size_rb = 4, mask_rb = 3,
                      read_cursor = 0, write_cursor = 12, wrap_cursor = 4\<rparr>"

text \<open>Capacity 8, after \<^verbatim>\<open>produce(hex, 3); consume(3); produce(hex, 0); consume(8)\<close>.\<close>

definition overdrawn8 :: ijcringbuffer where
  "overdrawn8 = \<lparr>data = memcpy (memcpy zero_bytes 0 hex 3) 0 hex 0, size_rb = 8, mask_rb = 7,
                 read_cursor = 24, write_cursor = 16, wrap_cursor = 3\<rparr>"

text \<open>Capacity 8, after \<^verbatim>\<open>produce(hex, 8); consume(3); produce(hex, 0)\<close>, and after one more
  \<^verbatim>\<open>consume(5)\<close>.\<close>

definition tail5_8 :: ijcringbuffer where
  "tail5_8 = \<lparr>data = memcpy (memcpy zero_bytes 0 hex 8) 0 hex 0, size_rb = 8, mask_rb = 7,
              read_cursor = 3, write_cursor = 24, wrap_cursor = 8\<rparr>"

definition tail0_8 :: ijcringbuffer where
  "tail0_8 = \<lparr>data = memcpy (memcpy zero_bytes 0 hex 8) 0 hex 0, size_rb = 8, mask_rb = 7,
              read_cursor = 8, write_cursor = 24, wrap_cursor = 8\<rparr>"

text \<open>Capacity 4, after \<^verbatim>\<open>produce(hex, 1); consume(1)\<close>: empty, both cursors at 1.\<close>

definition drained4 :: ijcringbuffer where
  "drained4 = \<lparr>data = memcpy zero_bytes 0 hex 1, size_rb = 4, mask_rb = 3,
               read_cursor = 1, write_cursor = 1, wrap_cursor = 0\<rparr>"

text \<open>Capacity \<open>2 ^ 30\<close>, after \<^verbatim>\<open>produce(hex, 2^30); consume(1); produce(hex, 1)\<close>.\<close>

definition wide30 :: ijcringbuffer where
  "wide30 = \<lparr>data = memcpy (memcpy zero_bytes 0 hex 1073741824) 0 hex 1,
             size_rb = 1073741824, mask_rb = 1073741823,
             read_cursor = 1, write_cursor = 3221225473, wrap_cursor = 1073741824\<rparr>"

text \<open>Capacity \<open>2 ^ 31\<close>, after \<^verbatim>\<open>produce(hex, 1); consume(1)\<close>, and after one more
  \<^verbatim>\<open>produce(abc, 1)\<close>.\<close>

definition drained31 :: ijcringbuffer where
  "drained31 = \<lparr>data = memcpy zero_bytes 0 hex 1, size_rb = 2147483648, mask_rb = 2147483647,
                read_cursor = 1, write_cursor = 1, wrap_cursor = 0\<rparr>"

definition wide31 :: ijcringbuffer where
  "wide31 = \<lparr>data = memcpy (memcpy zero_bytes 0 hex 1) 0 abc 1,
             size_rb = 2147483648, mask_rb = 2147483647,
             read_cursor = 1, write_cursor = 1, wrap_cursor = 1\<rparr>"

section \<open>Arithmetic of the cursors\<close>

subsection \<open>Powers of two\<close>

lemma pow2_nat: "0 < (n::nat) \<Longrightarrow> n AND (n - 1) = 0 \<Longrightarrow> \<exists>k. n = 2 ^ k"
proof (induction n rule: less_induct)
  case (less n)
  show ?case
  proof (cases "even n")
    case True
    then obtain m where m: "n = 2 * m" by (auto elim: evenE)
    with less.prems have mpos: "0 < m" by simp
    have "(n - 1) div 2 = m - 1" using m mpos by (cases m) simp_all
    moreover have "n div 2 = m" using m by simp
    ultimately have "n AND (n - 1) = 2 * (m AND (m - 1))"
      using True by (subst and_nat_rec) simp
    with less.prems have "m AND (m - 1) = 0" by simp
    moreover have "m < n" using m mpos by simp
    ultimately obtain k where "m = 2 ^ k" using less.IH mpos by blast
    then have "n = 2 ^ (Suc k)" using m by simp
    then show ?thesis by blast
  next
    case False
    then obtain m where m: "n = 2 * m + 1" by (auto elim: oddE)
    have "n AND (n - 1) = 2 * (m AND m)"
      using m by (subst and_nat_rec) simp
    with less.prems have "m = 0" by simp
    then have "n = 2 ^ 0" using m by simp
    then show ?thesis by blast
  qed
qed

lemma pow2_word:
  fixes n :: u32
  assumes "n \<noteq> 0" "n AND (n - 1) = 0"
  shows "\<exists>k<32. n = 2 ^ k"
proof -
  have "unat (n AND (n - 1)) = unat n AND unat (n - 1)"
    by (simp add: unsigned_and_eq)
  also have "unat (n - 1) = unat n - 1" using assms(1) by (rule unat_minus_one)
  finally have "unat n AND (unat n - 1) = 0" using assms(2) by simp
  moreover have "0 < unat n" using assms(1) by (simp add: unat_gt_0)
  ultimately obtain k where k: "unat n = 2 ^ k" using pow2_nat by blast
  have "unat n < 2 ^ 32" using unsigned_less [of n] by simp
  with k have "(2::nat) ^ k < 2 ^ 32" by simp
  then have "k < 32" by (rule power_less_imp_less_exp [rotated]) simp
  moreover have "n = 2 ^ k"
  proof -
    have "n = of_nat (unat n)" by simp
    also have "\<dots> = 2 ^ k" by (simp only: k) simp
    finally show ?thesis .
  qed
  ultimately show ?thesis by blast
qed

lemma and_mask_unat:
  fixes x :: u32
  assumes "k < 32"
  shows "unat (x AND (2 ^ k - 1)) = unat x mod 2 ^ k"
proof -
  have "x AND (2 ^ k - 1) = take_bit k x"
    by (simp add: take_bit_eq_mask mask_eq_decr_exp)
  then show ?thesis
    by (simp add: unsigned_take_bit_eq take_bit_nat_def)
qed

lemma unat_pow2:
  assumes "k < 32"
  shows "unat ((2::u32) ^ k) = 2 ^ k"
proof -
  have "(2::nat) ^ k < 2 ^ 32" by (rule power_strict_increasing) (use assms in simp_all)
  moreover have "(2::u32) ^ k = of_nat (2 ^ k)" by simp
  ultimately show ?thesis by (simp only: unat_of_nat) simp
qed

subsection \<open>Sums of small words\<close>

lemma unat_add2:
  fixes a b :: u32
  assumes "unat a + unat b < 2 ^ 32"
  shows "unat (a + b) = unat a + unat b"
  by (rule unat_add_lem [THEN iffD1]) (use assms in simp)

lemma unat_add3:
  fixes a b c :: u32
  assumes "unat a + unat b + unat c < 2 ^ 32"
  shows "unat (a + b + c) = unat a + unat b + unat c"
proof -
  have "unat (a + b) = unat a + unat b" by (rule unat_add2) (use assms in simp)
  then show ?thesis using unat_add2 [of "a + b" c] assms by simp
qed

lemma unat_add4:
  fixes a b c d :: u32
  assumes "unat a + unat b + unat c + unat d < 2 ^ 32"
  shows "unat (a + b + c + d) = unat a + unat b + unat c + unat d"
proof -
  have "unat (a + b + c) = unat a + unat b + unat c" by (rule unat_add3) (use assms in simp)
  then show ?thesis using unat_add2 [of "a + b + c" d] assms by simp
qed

lemma unat_neg: "unat (- (x::u32)) = (if x = 0 then 0 else 2 ^ 32 - unat x)"
  using unat_sub_if' [of 0 x] by (auto simp: unat_eq_zero)

subsection \<open>Capacity and physical offsets\<close>

lemma well_formed_pow2:
  assumes "well_formed s"
  shows "\<exists>k<32. size_rb s = 2 ^ k \<and> mask_rb s = 2 ^ k - 1 \<and> cap s = 2 ^ k"
proof -
  from assms obtain k where k: "k < 32" "size_rb s = 2 ^ k"
    using pow2_word [of "size_rb s"] by (auto simp: well_formed_def)
  moreover have "mask_rb s = 2 ^ k - 1" using assms k by (simp add: well_formed_def)
  moreover have "cap s = 2 ^ k" using k by (simp add: cap_def unat_pow2)
  ultimately show ?thesis by blast
qed

lemma cap_pos: "well_formed s \<Longrightarrow> 0 < cap s"
  using well_formed_pow2 [of s] by auto

lemma cap_lt: "cap s < 2 ^ 32"
  using unsigned_less [of "size_rb s", where 'a = nat] by (simp add: cap_def)

lemma cap_dvd: "well_formed s \<Longrightarrow> cap s dvd 2 ^ 32"
proof -
  assume "well_formed s"
  then obtain k where k: "k < 32" "cap s = 2 ^ k" using well_formed_pow2 by blast
  have "(2::nat) ^ k dvd 2 ^ 32" by (rule le_imp_power_dvd) (use k in simp)
  then show ?thesis by (simp only: k)
qed

lemma cap_le_iff: "size_rb s \<le> 2 ^ 30 \<longleftrightarrow> cap s \<le> 2 ^ 30"
  by (simp add: cap_def word_le_nat_alt)

lemma cap29_iff: "size_rb s \<le> 2 ^ 29 \<longleftrightarrow> cap s \<le> 2 ^ 29"
  by (simp add: cap_def word_le_nat_alt)

lemma phys_mod: "well_formed s \<Longrightarrow> phys s x = unat x mod cap s"
proof -
  assume "well_formed s"
  then obtain k where "k < 32" "mask_rb s = 2 ^ k - 1" "cap s = 2 ^ k"
    using well_formed_pow2 by blast
  then show ?thesis by (simp add: phys_def and_mask_unat)
qed

lemma phys_lt: "well_formed s \<Longrightarrow> phys s x < cap s"
  by (simp add: phys_mod cap_pos)

lemma phys_add: "well_formed s \<Longrightarrow> phys s (x + y) = (phys s x + unat y) mod cap s"
proof -
  assume wf: "well_formed s"
  have "phys s (x + y) = ((unat x + unat y) mod 2 ^ 32) mod cap s"
    using wf by (simp add: phys_mod unat_word_ariths)
  also have "\<dots> = (unat x + unat y) mod cap s"
    using cap_dvd [OF wf] by (rule mod_mod_cancel)
  also have "\<dots> = (unat x mod cap s + unat y) mod cap s"
    by (simp add: mod_add_left_eq)
  finally show ?thesis using wf by (simp add: phys_mod)
qed

lemma phys_small: "well_formed s \<Longrightarrow> unat x < cap s \<Longrightarrow> phys s x = unat x"
  by (simp add: phys_mod)

lemma and_mask_small: "well_formed s \<Longrightarrow> unat x < cap s \<Longrightarrow> x AND mask_rb s = x"
  using phys_small [of s x] by (simp add: phys_def word_unat_eq_iff)

lemma phys_size: "well_formed s \<Longrightarrow> phys s (size_rb s) = 0"
  by (simp add: phys_mod cap_def)

lemma phys_aligned: "well_formed s \<Longrightarrow> phys s (x - (x AND mask_rb s)) = 0"
proof -
  assume wf: "well_formed s"
  have le: "x AND mask_rb s \<le> x" by (rule word_and_le2)
  have "unat (x - (x AND mask_rb s)) = unat x - unat x mod cap s"
    using phys_mod [OF wf, of x] by (simp add: unat_sub [OF le] phys_def)
  then show ?thesis using wf by (simp add: phys_mod minus_mod_eq_mult_div)
qed

lemma phys_aligned2:
  assumes "well_formed s"
  shows "phys s (x - (x AND mask_rb s) + size_rb s + size_rb s) = 0"
proof -
  have "phys s ((x - (x AND mask_rb s)) + size_rb s) = 0"
    by (simp only: phys_add [OF assms] phys_aligned [OF assms]) (simp add: cap_def)
  then show ?thesis
    by (simp only: phys_add [OF assms, of "(x - (x AND mask_rb s)) + size_rb s"]) (simp add: cap_def)
qed

lemma phys_front:
  assumes "well_formed s"
  shows "phys s (x + (size_rb s + (size_rb s - (x AND mask_rb s)) + n)) = unat n mod cap s"
proof -
  have eq: "x + (size_rb s + (size_rb s - (x AND mask_rb s)) + n)
      = (x - (x AND mask_rb s)) + size_rb s + size_rb s + n"
    by simp
  have "phys s ((x - (x AND mask_rb s)) + size_rb s + size_rb s + n)
      = (phys s ((x - (x AND mask_rb s)) + size_rb s + size_rb s) + unat n) mod cap s"
    by (rule phys_add [OF assms])
  also have "phys s ((x - (x AND mask_rb s)) + size_rb s + size_rb s) = 0"
  proof -
    have "phys s ((x - (x AND mask_rb s)) + size_rb s) = 0"
      by (simp only: phys_add [OF assms] phys_aligned [OF assms]) (simp add: cap_def)
    then show ?thesis
      by (simp only: phys_add [OF assms, of "(x - (x AND mask_rb s)) + size_rb s"]) (simp add: cap_def)
  qed
  finally show ?thesis by (simp only: eq) simp
qed

lemma phys_diff:
  assumes wf: "well_formed s" and le: "phys s y \<le> phys s x"
  shows "phys s (x - y) = phys s x - phys s y"
proof -
  have "phys s x = phys s ((x - y) + y)" by simp
  also have "\<dots> = (phys s (x - y) + unat y) mod cap s" by (rule phys_add [OF wf])
  also have "\<dots> = (phys s (x - y) + phys s y) mod cap s"
    by (simp add: phys_mod [OF wf, of y] mod_add_right_eq)
  finally have eq: "phys s x = (phys s (x - y) + phys s y) mod cap s" .
  have q: "phys s (x - y) < cap s" and px: "phys s x < cap s"
    by (rule phys_lt [OF wf])+
  show ?thesis
  proof (cases "phys s (x - y) + phys s y < cap s")
    case True
    then show ?thesis using eq by simp
  next
    case False
    then have "(phys s (x - y) + phys s y) mod cap s = phys s (x - y) + phys s y - cap s"
      using q px le by (simp add: mod_if)
    then show ?thesis using eq False q le by simp
  qed
qed

lemma and_mask_less_size: "well_formed s \<Longrightarrow> x AND mask_rb s < size_rb s"
  using phys_lt [of s x] by (simp add: phys_def cap_def word_less_nat_alt)

lemma and_mask_size: "well_formed s \<Longrightarrow> size_rb s AND mask_rb s = 0"
  using phys_size [of s] by (simp add: phys_def unat_eq_zero)

lemma and_mask_below: "well_formed s \<Longrightarrow> n < size_rb s \<Longrightarrow> n AND mask_rb s = n"
  by (rule and_mask_small) (simp_all add: word_less_nat_alt cap_def)

lemma collapse_offset:
  assumes wf: "well_formed s"
  shows "(read_cursor s + (size_rb s + (size_rb s - (read_cursor s AND mask_rb s)) + n))
           AND mask_rb s = n AND mask_rb s"
proof -
  have "phys s (read_cursor s + (size_rb s + (size_rb s - (read_cursor s AND mask_rb s)) + n))
      = unat n mod cap s"
    by (rule phys_front [OF wf])
  also have "\<dots> = phys s n" by (simp add: phys_mod [OF wf])
  finally show ?thesis by (simp add: phys_def word_unat_eq_iff)
qed

lemma unat_size_sub_mask:
  assumes "well_formed s"
  shows "unat (size_rb s - (x AND mask_rb s)) = cap s - phys s x"
proof -
  have "x AND mask_rb s \<le> size_rb s"
    using and_mask_less_size [OF assms, of x] by simp
  then show ?thesis by (simp add: unat_sub cap_def phys_def)
qed

lemma unat_twice_size_sub_mask:
  assumes wf: "well_formed s" and cap: "cap s \<le> 2 ^ 29"
  shows "unat (2 * size_rb s - (x AND mask_rb s)) = 2 * cap s - phys s x"
proof -
  have two: "unat (2 * size_rb s) = 2 * cap s"
    using unat_add2 [of "size_rb s" "size_rb s"] cap by (simp add: cap_def)
  have "unat (x AND mask_rb s) < cap s" using phys_lt [OF wf, of x] by (simp add: phys_def)
  then have "x AND mask_rb s \<le> 2 * size_rb s" using two by (simp add: word_le_nat_alt)
  then show ?thesis using two by (simp add: unat_sub phys_def)
qed

subsection \<open>Circular distance\<close>

lemma difference_unat:
  "unat (ijcringbuffer__difference a b) = min (unat (a - b)) (unat (b - a))"
  by (simp add: ijcringbuffer__difference_def Let_def word_less_nat_alt min_def)

lemma is_split_iff:
  "ijcringbuffer__is_split s \<longleftrightarrow>
     cap s < unat (write_cursor s - read_cursor s) \<and>
     unat (write_cursor s - read_cursor s) + cap s < 2 ^ 32"
proof -
  have neg: "read_cursor s - write_cursor s = - (write_cursor s - read_cursor s)" by simp
  have lt: "unat (write_cursor s - read_cursor s) < 2 ^ 32"
    using unsigned_less [of "write_cursor s - read_cursor s", where 'a = nat] by simp
  show ?thesis
    unfolding ijcringbuffer__is_split_def word_less_nat_alt difference_unat neg unat_neg cap_def
    using lt by (auto simp: unat_eq_zero)
qed

lemma spec_is_split_eq: "spec_is_split s = ijcringbuffer__is_split s"
  by (auto simp: spec_is_split_def spec_circular_distance_def ijcringbuffer__is_split_def
      ijcringbuffer__difference_def Let_def min_def)

section \<open>The operations, path by path\<close>

lemma init_well_formed:
  "ijcringbuffer_init d n = Inr s \<Longrightarrow> well_formed s"
  by (auto simp: ijcringbuffer_init_def well_formed_def split: if_splits)

lemma write_to_front_frame:
  "write_to_front s d n = Inr (s', rc) \<Longrightarrow>
     size_rb s' = size_rb s \<and> mask_rb s' = mask_rb s \<and> read_cursor s' = read_cursor s"
  by (auto simp: write_to_front_def Let_def split: if_splits)

lemma check_front_frame:
  "check_front s d n = Inr (s', rc) \<Longrightarrow>
     size_rb s' = size_rb s \<and> mask_rb s' = mask_rb s \<and> read_cursor s' = read_cursor s"
  by (auto simp: check_front_def dest: write_to_front_frame split: if_splits)

lemma produce_frame:
  "ijcringbuffer_produce s d n = Inr (s', rc) \<Longrightarrow>
     size_rb s' = size_rb s \<and> mask_rb s' = mask_rb s \<and> read_cursor s' = read_cursor s"
  unfolding ijcringbuffer_produce_def Let_def
  by (auto dest: write_to_front_frame check_front_frame split: if_splits)

lemma consume_frame:
  "ijcringbuffer_consume s n = Inr s' \<Longrightarrow>
     size_rb s' = size_rb s \<and> mask_rb s' = mask_rb s \<and> data s' = data s \<and>
     write_cursor s' = write_cursor s \<and> wrap_cursor s' = wrap_cursor s"
  by (auto simp: ijcringbuffer_consume_def split: sum.splits if_splits)

lemma reach_well_formed: "reach P s \<Longrightarrow> well_formed s"
proof (induction rule: reach.induct)
  case (reach_init d n s)
  then show ?case by (rule init_well_formed)
next
  case (reach_reset s)
  then show ?case by (simp add: well_formed_def ijcringbuffer_reset_def)
next
  case (reach_produce s n d s' rc)
  then show ?case using produce_frame [of s d n s' rc] by (simp add: well_formed_def)
next
  case (reach_consume s n s')
  then show ?case using consume_frame [of s n s'] by (simp add: well_formed_def)
qed

lemma memcpy_read: "i < n \<Longrightarrow> memcpy dst off src n (off + i) = src i"
  by (simp add: memcpy_def)

lemma write_to_front_result:
  assumes "write_to_front s d n = Inr (s', rc)"
  shows "s' = s\<lparr>wrap_cursor := write_cursor s, data := memcpy (data s) 0 d (unat n),
                write_cursor := write_cursor s
                  + (size_rb s + (size_rb s - (write_cursor s AND mask_rb s)) + n)\<rparr>
         \<and> rc = 1 \<and> write_cursor s' AND mask_rb s = n"
  using assms by (auto simp: write_to_front_def Let_def split: if_splits)

lemma write_to_front_ok:
  assumes wf: "well_formed s" and n: "unat n < cap s"
  shows "write_to_front s d n =
           Inr (s\<lparr>wrap_cursor := write_cursor s, data := memcpy (data s) 0 d (unat n),
                   write_cursor := write_cursor s
                     + (size_rb s + (size_rb s - (write_cursor s AND mask_rb s)) + n)\<rparr>, 1)"
proof -
  have "phys s (write_cursor s + (size_rb s + (size_rb s - (write_cursor s AND mask_rb s)) + n))
      = unat n mod cap s"
    by (rule phys_front [OF wf])
  then have "(write_cursor s + (size_rb s + (size_rb s - (write_cursor s AND mask_rb s)) + n))
               AND mask_rb s = n"
    using n by (simp add: phys_def word_unat_eq_iff)
  then show ?thesis by (simp add: write_to_front_def Let_def)
qed

lemma write_to_front_full:
  assumes wf: "well_formed s" and n: "n = size_rb s"
  shows "write_to_front s d n = Inl AssertionFailed"
proof -
  have "phys s (write_cursor s + (size_rb s + (size_rb s - (write_cursor s AND mask_rb s)) + n))
      = unat n mod cap s"
    by (rule phys_front [OF wf])
  then have "unat ((write_cursor s + (size_rb s + (size_rb s - (write_cursor s AND mask_rb s)) + n))
               AND mask_rb s) = 0"
    using n by (simp add: phys_def cap_def)
  moreover have "unat n \<noteq> 0" using n cap_pos [OF wf] by (simp add: cap_def)
  ultimately have "(write_cursor s + (size_rb s + (size_rb s - (write_cursor s AND mask_rb s)) + n))
               AND mask_rb s \<noteq> n"
    by metis
  then show ?thesis by (simp add: write_to_front_def Let_def)
qed

lemma produce_not_split:
  "\<not> ijcringbuffer__is_split s \<Longrightarrow>
   ijcringbuffer_produce s d n =
     (if write_cursor s AND mask_rb s \<noteq> 0 \<and> write_cursor s = read_cursor s \<and> n \<le> size_rb s
      then write_to_front s d n
      else if write_cursor s AND mask_rb s = 0 \<and> write_cursor s \<noteq> read_cursor s
      then check_front s d n
      else if n \<le> size_rb s - (write_cursor s AND mask_rb s)
      then Inr (s\<lparr>data := memcpy (data s) (unat (write_cursor s AND mask_rb s)) d (unat n),
                     write_cursor := write_cursor s + n\<rparr>, 1)
      else check_front s d n)"
  by (simp add: ijcringbuffer_produce_def Let_def ijcringbuffer_is_empty_def)

lemma front_distance:
  assumes wf: "well_formed s" and cap: "cap s \<le> 2 ^ 30"
    and d: "unat (write_cursor s - read_cursor s) \<le> cap s" and n: "unat n < cap s"
  shows "unat (write_cursor s + (size_rb s + (size_rb s - (write_cursor s AND mask_rb s)) + n)
               - read_cursor s)
         = unat (write_cursor s - read_cursor s) + 2 * cap s - phys s (write_cursor s) + unat n"
proof -
  define D where "D = write_cursor s - read_cursor s"
  define m where "m = size_rb s - (write_cursor s AND mask_rb s)"
  have m: "unat m = cap s - phys s (write_cursor s)"
    unfolding m_def by (rule unat_size_sub_mask [OF wf])
  have p: "phys s (write_cursor s) < cap s" by (rule phys_lt [OF wf])
  have eq: "write_cursor s + (size_rb s + (size_rb s - (write_cursor s AND mask_rb s)) + n)
              - read_cursor s = D + size_rb s + m + n"
    by (simp add: D_def m_def)
  have "unat (D + size_rb s + m + n) = unat D + unat (size_rb s) + unat m + unat n"
    by (rule unat_add4) (use d cap p n m in \<open>simp add: cap_def D_def [symmetric]\<close>)
  then show ?thesis unfolding eq using p m by (simp add: cap_def D_def)
qed

lemma consume_result:
  assumes c: "ijcringbuffer_consumeable_size_continuous s = Inr c" and n: "n \<le> c"
  shows "ijcringbuffer_consume s n =
           Inr (s\<lparr>read_cursor := read_cursor s
                   + (if ijcringbuffer__is_split s \<and> read_cursor s = wrap_cursor s
                      then size_rb s + (size_rb s - (read_cursor s AND mask_rb s)) + n
                      else n)\<rparr>)"
  using c n by (auto simp: ijcringbuffer_consume_def)

lemma cs_returns_cs:
  "ijcringbuffer__consumeable_size s c = Inr v \<Longrightarrow>
     v = consumeable_size_cs s c \<and> v \<le> size_rb s"
  by (auto simp: ijcringbuffer__consumeable_size_def split: if_splits)

lemma cs_spec:
  "consumeable_size_cs s True = spec_consumable_size_continuous s"
  "consumeable_size_cs s False = spec_consumable_size s"
  by (simp_all add: consumeable_size_cs_def spec_consumable_size_continuous_def
      spec_consumable_size_def spec_is_split_eq Let_def)

section \<open>Call sequences\<close>

lemmas call_defs = ijcringbuffer_init_def ijcringbuffer_reset_def ijcringbuffer__is_split_def
  ijcringbuffer__difference_def ijcringbuffer_peek_def consumeable_size_cs_def
  ijcringbuffer__consumeable_size_def ijcringbuffer_consumeable_size_continuous_def
  ijcringbuffer_consumeable_size_def ijcringbuffer_consume_def ijcringbuffer_is_empty_def
  ijcringbuffer_is_full_def write_to_front_def check_front_def ijcringbuffer_produce_def
  run_init_def Let_def word_less_nat_alt word_le_nat_alt unsigned_minus_1_eq_mask mask_eq_exp_minus_1

lemmas data_defs = memcpy_def bytes_of_def hex_def abc_def xyz_def zero_bytes_def

lemma run_reach:
  "reach P s \<Longrightarrow> list_all (\<lambda>c. case c of Produce d n \<Rightarrow> P n | _ \<Rightarrow> True) cs \<Longrightarrow>
     run s cs = Inr s' \<Longrightarrow> reach P s'"
proof (induction cs arbitrary: s)
  case Nil
  then show ?case by simp
next
  case (Cons c cs)
  from Cons.prems(3) obtain s1 where s1: "step s c = Inr s1" and rest: "run s1 cs = Inr s'"
    by (auto split: sum.splits)
  have "reach P s1"
  proof (cases c)
    case (Produce d n)
    with s1 obtain rc where "ijcringbuffer_produce s d n = Inr (s1, rc)"
      by (auto split: sum.splits)
    moreover have "P n" using Cons.prems(2) Produce by simp
    ultimately show ?thesis using Cons.prems(1) by (blast intro: reach_produce)
  next
    case (Consume n)
    with s1 show ?thesis using Cons.prems(1) by (auto intro: reach_consume)
  next
    case Reset
    with s1 show ?thesis using Cons.prems(1) by (auto intro: reach_reset)
  qed
  moreover have "list_all (\<lambda>c. case c of Produce d n \<Rightarrow> P n | _ \<Rightarrow> True) cs"
    using Cons.prems(2) by simp
  ultimately show ?case using Cons.IH rest by blast
qed

lemma run_init_reachable: "run_init d n cs = Inr s \<Longrightarrow> reachable s"
proof -
  assume r: "run_init d n cs = Inr s"
  then obtain s0 where s0: "ijcringbuffer_init d n = Inr s0" and run: "run s0 cs = Inr s"
    by (auto simp: run_init_def split: sum.splits)
  have "list_all (\<lambda>c. case c of Produce d n \<Rightarrow> True | _ \<Rightarrow> True) cs"
    by (induction cs) (auto split: call.splits)
  with run_reach [OF reach_init [OF s0], of "\<lambda>n. True" cs s] run show ?thesis
    by (simp add: reachable_def)
qed

lemma run_init_reachable_nonzero:
  assumes "run_init d n cs = Inr s" and "list_all nonzero_call cs"
  shows "reachable_nonzero s"
proof -
  from assms(1) obtain s0 where s0: "ijcringbuffer_init d n = Inr s0" and run: "run s0 cs = Inr s"
    by (auto simp: run_init_def split: sum.splits)
  have "list_all (\<lambda>c. case c of Produce d n \<Rightarrow> n \<noteq> 0 | _ \<Rightarrow> True) cs"
    using assms(2) by (induction cs) (auto split: call.splits)
  with run_reach [OF reach_init [OF s0], of "\<lambda>n. n \<noteq> 0" cs s] run show ?thesis
    by (simp add: reachable_nonzero_def)
qed

lemma run_full8: "run_init zero_bytes 8 [Produce hex 8] = Inr full8"
  by (simp add: call_defs full8_def)

lemma run_abc8: "run_init zero_bytes 8 [Produce abc 3] = Inr abc8"
  by (simp add: call_defs abc8_def)

lemma run_drained8: "run_init zero_bytes 8 [Produce hex 4, Consume 4] = Inr drained8"
  by (simp add: call_defs drained8_def)

lemma run_restart8:
  "run_init zero_bytes 8 [Produce hex 4, Consume 4, Produce abc 3] = Inr restart8"
  by (simp add: call_defs restart8_def)

lemma run_front_full8:
  "run_init zero_bytes 8 [Produce hex 4, Consume 4, Produce hex 4, Produce hex 4] = Inr front_full8"
  by (simp add: call_defs front_full8_def)

lemma run_full_then_zero8: "run_init zero_bytes 8 [Produce hex 8, Produce hex 0] = Inr full_then_zero8"
  by (simp add: call_defs full_then_zero8_def)

lemma run_full_then_zero4: "run_init zero_bytes 4 [Produce hex 4, Produce hex 0] = Inr full_then_zero4"
  by (simp add: call_defs full_then_zero4_def)

lemma run_overdrawn8:
  "run_init zero_bytes 8 [Produce hex 3, Consume 3, Produce hex 0, Consume 8] = Inr overdrawn8"
  by (simp add: call_defs overdrawn8_def)

lemma run_tail5_8: "run_init zero_bytes 8 [Produce hex 8, Consume 3, Produce hex 0] = Inr tail5_8"
  by (simp add: call_defs tail5_8_def)

lemma run_drained4: "run_init zero_bytes 4 [Produce hex 1, Consume 1] = Inr drained4"
  by (simp add: call_defs drained4_def)

section \<open>The design invariant\<close>

text \<open>
  A state reached with a capacity of at most \<open>2 ^ 29\<close> and without a zero-length
  \<^verbatim>\<open>produce\<close> has one of two shapes. Not split: the write cursor is at most \<open>size\<close> ahead of
  the read cursor, and the stored bytes do not cross the physical end of the storage. Split:
  the front run is not empty; while the tail run is not drained, the front run ends at or
  before the physical read offset and the tail run ends at or before the physical end; once
  the tail is drained, the front run holds at most \<open>size\<close> bytes.
\<close>

subsection \<open>The two shapes\<close>

lemma design_invD:
  assumes "design_inv s"
  shows "well_formed s" and "cap s \<le> 2 ^ 29" and "unsplit_inv s \<or> split_inv s"
  using assms by (simp_all only: design_inv_def cap29_iff)

lemma unsplit_not_split: "unsplit_inv s \<Longrightarrow> \<not> ijcringbuffer__is_split s"
  by (simp add: unsplit_inv_def is_split_iff)

lemma split_bounds:
  assumes wf: "well_formed s" and inv: "split_inv s"
  shows "tail_len s \<le> cap s" and "front_len s \<le> cap s" and "1 \<le> front_len s"
    and "tail_len s \<noteq> 0 \<Longrightarrow> tail_len s < cap s"
    and "tail_len s \<noteq> 0 \<Longrightarrow> front_len s < cap s"
proof -
  have p: "phys s (read_cursor s) < cap s" by (rule phys_lt [OF wf])
  show "tail_len s \<le> cap s" using inv p by (auto simp: split_inv_def split: if_splits)
  show "front_len s \<le> cap s" using inv p by (auto simp: split_inv_def split: if_splits)
  show "1 \<le> front_len s" using inv by (simp add: split_inv_def)
  show "tail_len s \<noteq> 0 \<Longrightarrow> tail_len s < cap s"
    using inv p by (auto simp: split_inv_def split: if_splits)
  show "tail_len s \<noteq> 0 \<Longrightarrow> front_len s < cap s"
    using inv p by (auto simp: split_inv_def split: if_splits)
qed

lemma split_distance:
  assumes wf: "well_formed s" and cap: "cap s \<le> 2 ^ 29" and inv: "split_inv s"
  shows "unat (write_cursor s - read_cursor s)
         = tail_len s + (2 * cap s - phys s (wrap_cursor s)) + front_len s"
proof -
  define T where "T = wrap_cursor s - read_cursor s"
  define m where "m = 2 * size_rb s - (wrap_cursor s AND mask_rb s)"
  define F where "F = write_cursor s - wrap_cursor s - 2 * size_rb s + (wrap_cursor s AND mask_rb s)"
  have eq: "write_cursor s - read_cursor s = T + m + F" by (simp add: T_def m_def F_def)
  have m: "unat m = 2 * cap s - phys s (wrap_cursor s)"
    unfolding m_def by (rule unat_twice_size_sub_mask [OF wf cap])
  have T: "unat T = tail_len s" by (simp add: T_def tail_len_def)
  have F: "unat F = front_len s" by (simp add: F_def front_len_def)
  have "unat (T + m + F) = unat T + unat m + unat F"
    by (rule unat_add3) (use split_bounds(1,2) [OF wf inv] cap m T F in simp)
  then show ?thesis by (simp only: eq T m F)
qed

lemma split_is_split:
  assumes wf: "well_formed s" and cap: "cap s \<le> 2 ^ 29" and inv: "split_inv s"
  shows "ijcringbuffer__is_split s"
proof -
  have p: "phys s (wrap_cursor s) < cap s" by (rule phys_lt [OF wf])
  show ?thesis
    unfolding is_split_iff split_distance [OF wf cap inv]
    using split_bounds(1,2,3) [OF wf inv] cap p by (simp; arith)
qed

lemma design_split_iff:
  assumes "design_inv s"
  shows "ijcringbuffer__is_split s \<longleftrightarrow> split_inv s"
  using design_invD [OF assms] unsplit_not_split split_is_split by blast

lemma design_unsplit_iff:
  assumes "design_inv s"
  shows "\<not> ijcringbuffer__is_split s \<longleftrightarrow> unsplit_inv s"
  using design_invD [OF assms] unsplit_not_split split_is_split by blast

lemma phys_write_split:
  assumes wf: "well_formed s"
  shows "phys s (write_cursor s) = front_len s mod cap s"
proof -
  define F where "F = write_cursor s - wrap_cursor s - 2 * size_rb s + (wrap_cursor s AND mask_rb s)"
  define A where "A = wrap_cursor s - (wrap_cursor s AND mask_rb s) + size_rb s + size_rb s"
  have eq: "write_cursor s = A + F" by (simp add: A_def F_def)
  have "phys s A = 0" unfolding A_def by (rule phys_aligned2 [OF wf])
  then have "phys s (A + F) = unat F mod cap s" by (simp add: phys_add [OF wf, of A F])
  then have "phys s (write_cursor s) = unat F mod cap s" by (simp only: eq [symmetric])
  then show ?thesis by (simp only: front_len_def F_def)
qed

lemma tail_len_zero_iff: "tail_len s = 0 \<longleftrightarrow> read_cursor s = wrap_cursor s"
  by (auto simp: tail_len_def unat_eq_zero)

subsection \<open>The sizes\<close>

lemma cs_unsplit:
  assumes "unsplit_inv s"
  shows "ijcringbuffer__consumeable_size s c = Inr (write_cursor s - read_cursor s)"
proof -
  have "\<not> ijcringbuffer__is_split s" using assms by (rule unsplit_not_split)
  moreover have "write_cursor s - read_cursor s \<le> size_rb s"
    using assms by (simp add: unsplit_inv_def word_le_nat_alt cap_def)
  ultimately show ?thesis
    by (simp add: ijcringbuffer__consumeable_size_def consumeable_size_cs_def)
qed

lemma split_tail_facts:
  assumes inv: "design_inv s" and sp: "split_inv s" and ne: "read_cursor s \<noteq> wrap_cursor s"
  shows "(wrap_cursor s - read_cursor s) AND mask_rb s = wrap_cursor s - read_cursor s"
    and "unat (write_cursor s AND mask_rb s) = front_len s"
    and "ijcringbuffer__difference (wrap_cursor s) (read_cursor s) < size_rb s"
    and "unat ((wrap_cursor s - read_cursor s) + (write_cursor s AND mask_rb s))
           = tail_len s + front_len s"
    and "front_len s \<le> phys s (read_cursor s)"
    and "phys s (read_cursor s) + tail_len s \<le> cap s"
proof -
  note wf = design_invD(1) [OF inv] and cap = design_invD(2) [OF inv]
  have T0: "tail_len s \<noteq> 0" using ne by (simp add: tail_len_zero_iff)
  note b = split_bounds [OF wf sp]
  have T: "tail_len s < cap s" and F: "front_len s < cap s" using b(4,5) T0 by simp_all
  show 1: "(wrap_cursor s - read_cursor s) AND mask_rb s = wrap_cursor s - read_cursor s"
    by (rule and_mask_small [OF wf]) (use T in \<open>simp add: tail_len_def\<close>)
  show 2: "unat (write_cursor s AND mask_rb s) = front_len s"
    using phys_write_split [OF wf] F by (simp add: phys_def)
  have "unat (ijcringbuffer__difference (wrap_cursor s) (read_cursor s)) \<le> tail_len s"
    by (simp add: difference_unat tail_len_def)
  then show "ijcringbuffer__difference (wrap_cursor s) (read_cursor s) < size_rb s"
    using T by (simp add: word_less_nat_alt cap_def)
  show 5: "front_len s \<le> phys s (read_cursor s)"
    and 6: "phys s (read_cursor s) + tail_len s \<le> cap s"
    using sp T0 by (simp_all add: split_inv_def)
  have "unat ((wrap_cursor s - read_cursor s) + (write_cursor s AND mask_rb s))
      = unat (wrap_cursor s - read_cursor s) + unat (write_cursor s AND mask_rb s)"
    by (rule unat_add2) (use T F cap 2 in \<open>simp add: tail_len_def\<close>)
  then show "unat ((wrap_cursor s - read_cursor s) + (write_cursor s AND mask_rb s))
           = tail_len s + front_len s"
    by (simp add: 2 tail_len_def)
qed

lemma cs_split_tail:
  assumes inv: "design_inv s" and sp: "split_inv s" and ne: "read_cursor s \<noteq> wrap_cursor s"
  shows "ijcringbuffer__consumeable_size s c =
           Inr ((wrap_cursor s - read_cursor s)
                 + (if c then 0 else (write_cursor s AND mask_rb s)))"
proof -
  note wf = design_invD(1) [OF inv] and cap = design_invD(2) [OF inv]
  note f = split_tail_facts [OF inv sp ne]
  have split: "ijcringbuffer__is_split s" by (rule split_is_split [OF wf cap sp])
  have "tail_len s + front_len s \<le> cap s" using f(5,6) by simp
  then have le: "(wrap_cursor s - read_cursor s) + (write_cursor s AND mask_rb s) \<le> size_rb s"
    using f(4) by (simp add: word_le_nat_alt cap_def)
  have "tail_len s \<le> cap s" using split_bounds(1) [OF wf sp] .
  then have le': "wrap_cursor s - read_cursor s \<le> size_rb s"
    by (simp add: word_le_nat_alt cap_def tail_len_def)
  show ?thesis
    using split ne f(1,3) le le'
    by (simp add: ijcringbuffer__consumeable_size_def consumeable_size_cs_def)
qed

lemma split_drained_facts:
  assumes inv: "design_inv s" and sp: "split_inv s" and eq: "read_cursor s = wrap_cursor s"
  shows "unat (if write_cursor s AND mask_rb s \<noteq> 0 then write_cursor s AND mask_rb s
               else size_rb s) = front_len s"
proof -
  note wf = design_invD(1) [OF inv]
  note b = split_bounds [OF wf sp]
  have p: "phys s (write_cursor s) = front_len s mod cap s" by (rule phys_write_split [OF wf])
  show ?thesis
  proof (cases "front_len s = cap s")
    case True
    then have "phys s (write_cursor s) = 0" using p by simp
    then have "write_cursor s AND mask_rb s = 0" by (simp add: phys_def unat_eq_zero)
    then show ?thesis using True by (simp add: cap_def)
  next
    case False
    then have "front_len s < cap s" using b(2) by simp
    then have "phys s (write_cursor s) = front_len s" using p by simp
    moreover from this have "write_cursor s AND mask_rb s \<noteq> 0"
      using b(3) by (auto simp: phys_def)
    ultimately show ?thesis by (simp add: phys_def)
  qed
qed

lemma cs_split_drained:
  assumes inv: "design_inv s" and sp: "split_inv s" and eq: "read_cursor s = wrap_cursor s"
  shows "ijcringbuffer__consumeable_size s c =
           Inr (if write_cursor s AND mask_rb s \<noteq> 0 then write_cursor s AND mask_rb s
                else size_rb s)"
proof -
  note wf = design_invD(1) [OF inv] and cap = design_invD(2) [OF inv]
  have split: "ijcringbuffer__is_split s" by (rule split_is_split [OF wf cap sp])
  have "(if write_cursor s AND mask_rb s \<noteq> 0 then write_cursor s AND mask_rb s else size_rb s)
           \<le> size_rb s"
    using split_drained_facts [OF inv sp eq] split_bounds(2) [OF wf sp]
    by (simp only: word_le_nat_alt cap_def)
  then show ?thesis
    using split eq
    by (simp add: ijcringbuffer__consumeable_size_def consumeable_size_cs_def Let_def)
qed

lemma cs_design:
  assumes inv: "design_inv s"
  shows "ijcringbuffer__consumeable_size s c = Inr (consumeable_size_cs s c)"
proof -
  have "\<exists>v. ijcringbuffer__consumeable_size s c = Inr v"
  proof (cases "split_inv s")
    case False
    then have "unsplit_inv s" using design_invD(3) [OF inv] by simp
    then show ?thesis using cs_unsplit by blast
  next
    case True
    then show ?thesis
      using cs_split_tail [OF inv True] cs_split_drained [OF inv True]
      by (cases "read_cursor s = wrap_cursor s") blast+
  qed
  then show ?thesis using cs_returns_cs by blast
qed

lemma cs_total_unat:
  assumes inv: "design_inv s"
  shows "unat (consumeable_size_cs s False)
         = (if split_inv s then tail_len s + front_len s
            else unat (write_cursor s - read_cursor s))"
proof (cases "split_inv s")
  case False
  then have "unsplit_inv s" using design_invD(3) [OF inv] by simp
  then have "\<not> ijcringbuffer__is_split s" by (rule unsplit_not_split)
  then show ?thesis using False by (simp add: consumeable_size_cs_def)
next
  case True
  then have split: "ijcringbuffer__is_split s" using design_split_iff [OF inv] by simp
  show ?thesis
  proof (cases "read_cursor s = wrap_cursor s")
    case eq: True
    then have "tail_len s = 0" by (simp add: tail_len_zero_iff)
    then show ?thesis
      using split_drained_facts [OF inv True eq] split eq True
      by (simp add: consumeable_size_cs_def Let_def)
  next
    case False
    then show ?thesis
      using split_tail_facts(1,4) [OF inv True False] split True
      by (simp add: consumeable_size_cs_def)
  qed
qed

subsection \<open>Consume\<close>

lemma unsplit_inv_readI:
  assumes "unat (write_cursor s - x) \<le> cap s"
    and "write_cursor s \<noteq> x \<Longrightarrow> phys s x + unat (write_cursor s - x) \<le> cap s"
  shows "unsplit_inv (s\<lparr>read_cursor := x\<rparr>)"
  using assms by (simp add: unsplit_inv_def cap_def phys_def)

lemma consume_unsplit:
  assumes inv: "design_inv s" and un: "unsplit_inv s" and n: "n \<le> write_cursor s - read_cursor s"
  shows "ijcringbuffer_consume s n = Inr (s\<lparr>read_cursor := read_cursor s + n\<rparr>)"
    and "unsplit_inv (s\<lparr>read_cursor := read_cursor s + n\<rparr>)"
proof -
  note wf = design_invD(1) [OF inv]
  have ns: "\<not> ijcringbuffer__is_split s" using un by (rule unsplit_not_split)
  show "ijcringbuffer_consume s n = Inr (s\<lparr>read_cursor := read_cursor s + n\<rparr>)"
    using cs_unsplit [OF un, of True] n ns
    by (simp add: ijcringbuffer_consume_def ijcringbuffer_consumeable_size_continuous_def)
  define D where "D = write_cursor s - read_cursor s"
  have eq: "write_cursor s - (read_cursor s + n) = D - n" by (simp add: D_def)
  have nD: "n \<le> D" using n by (simp add: D_def)
  have D': "unat (D - n) = unat D - unat n" using nD by (rule unat_sub)
  have nle: "unat n \<le> unat D" using nD by (simp add: word_le_nat_alt)
  have DS: "unat D \<le> cap s" using un by (simp add: unsplit_inv_def D_def)
  have "phys s (read_cursor s + n) + unat (D - n) \<le> cap s" if ne: "write_cursor s \<noteq> read_cursor s + n"
  proof -
    have "D - n \<noteq> 0" using ne by (simp add: D_def diff_eq_eq add.commute)
    then have lt: "unat n < unat D" using D' nle by (simp add: unat_eq_zero [symmetric] del: unat_eq_zero)
    then have "D \<noteq> 0" by auto
    then have "write_cursor s \<noteq> read_cursor s" by (simp add: D_def)
    then have b: "phys s (read_cursor s) + unat D \<le> cap s"
      using un by (simp add: unsplit_inv_def D_def)
    then have "phys s (read_cursor s + n) = phys s (read_cursor s) + unat n"
      using lt by (simp add: phys_add [OF wf])
    then show ?thesis using b lt D' by simp
  qed
  then show "unsplit_inv (s\<lparr>read_cursor := read_cursor s + n\<rparr>)"
    using DS D' by (simp add: unsplit_inv_def eq cap_def phys_def)
qed

lemma consume_split_tail:
  assumes inv: "design_inv s" and sp: "split_inv s" and ne: "read_cursor s \<noteq> wrap_cursor s"
    and n: "n \<le> wrap_cursor s - read_cursor s"
  shows "ijcringbuffer_consume s n = Inr (s\<lparr>read_cursor := read_cursor s + n\<rparr>)"
    and "split_inv (s\<lparr>read_cursor := read_cursor s + n\<rparr>)"
    and "tail_len (s\<lparr>read_cursor := read_cursor s + n\<rparr>) = tail_len s - unat n"
    and "unat n \<le> tail_len s"
proof -
  note wf = design_invD(1) [OF inv]
  note f = split_tail_facts [OF inv sp ne]
  show "ijcringbuffer_consume s n = Inr (s\<lparr>read_cursor := read_cursor s + n\<rparr>)"
    using cs_split_tail [OF inv sp ne, of True] n ne
    by (simp add: ijcringbuffer_consume_def ijcringbuffer_consumeable_size_continuous_def)
  define T where "T = wrap_cursor s - read_cursor s"
  have eq: "wrap_cursor s - (read_cursor s + n) = T - n" by (simp add: T_def)
  have nT: "n \<le> T" using n by (simp add: T_def)
  have T': "unat (T - n) = unat T - unat n" using nT by (rule unat_sub)
  show nle: "unat n \<le> tail_len s" using nT by (simp add: word_le_nat_alt tail_len_def T_def)
  have T: "unat T = tail_len s" by (simp add: T_def tail_len_def)
  show tl: "tail_len (s\<lparr>read_cursor := read_cursor s + n\<rparr>) = tail_len s - unat n"
    using T' T by (simp add: tail_len_def eq)
  have fl: "front_len (s\<lparr>read_cursor := read_cursor s + n\<rparr>) = front_len s"
    by (simp add: front_len_def)
  have F1: "1 \<le> front_len s" and FS: "front_len s \<le> cap s"
    using split_bounds [OF wf sp] by simp_all
  have "front_len s \<le> phys s (read_cursor s + n) \<and>
        phys s (read_cursor s + n) + (tail_len s - unat n) \<le> cap s"
    if "tail_len s - unat n \<noteq> 0"
  proof -
    have lt: "unat n < tail_len s" using that by simp
    then have "phys s (read_cursor s + n) = phys s (read_cursor s) + unat n"
      using f(6) by (simp add: phys_add [OF wf])
    then show ?thesis using f(5,6) lt by simp
  qed
  then show "split_inv (s\<lparr>read_cursor := read_cursor s + n\<rparr>)"
    using F1 FS by (simp add: split_inv_def tl fl cap_def phys_def)
qed

lemma consume_split_drained:
  assumes inv: "design_inv s" and sp: "split_inv s" and eq: "read_cursor s = wrap_cursor s"
    and n: "n \<le> (if write_cursor s AND mask_rb s \<noteq> 0 then write_cursor s AND mask_rb s
                  else size_rb s)"
  shows "ijcringbuffer_consume s n =
           Inr (s\<lparr>read_cursor := read_cursor s
                   + (size_rb s + (size_rb s - (read_cursor s AND mask_rb s)) + n)\<rparr>)"
    and "unsplit_inv (s\<lparr>read_cursor := read_cursor s
                   + (size_rb s + (size_rb s - (read_cursor s AND mask_rb s)) + n)\<rparr>)"
    and "unat (write_cursor s - (read_cursor s
                   + (size_rb s + (size_rb s - (read_cursor s AND mask_rb s)) + n)))
         = front_len s - unat n"
    and "unat n \<le> front_len s"
proof -
  note wf = design_invD(1) [OF inv] and cap = design_invD(2) [OF inv]
  let ?r' = "read_cursor s + (size_rb s + (size_rb s - (read_cursor s AND mask_rb s)) + n)"
  have split: "ijcringbuffer__is_split s" by (rule split_is_split [OF wf cap sp])
  show "ijcringbuffer_consume s n = Inr (s\<lparr>read_cursor := ?r'\<rparr>)"
    using cs_split_drained [OF inv sp eq, of True] n eq split
    by (simp add: ijcringbuffer_consume_def ijcringbuffer_consumeable_size_continuous_def)
  define F where "F = write_cursor s - wrap_cursor s - 2 * size_rb s + (wrap_cursor s AND mask_rb s)"
  have F: "unat F = front_len s" by (simp add: F_def front_len_def)
  have weq: "write_cursor s - ?r' = F - n" by (simp add: F_def eq)
  show nle: "unat n \<le> front_len s"
    using n split_drained_facts [OF inv sp eq] by (simp only: word_le_nat_alt)
  then have "n \<le> F" by (simp add: word_le_nat_alt F)
  then have F': "unat (F - n) = front_len s - unat n" by (simp add: unat_sub F)
  show "unat (write_cursor s - ?r') = front_len s - unat n" by (simp only: weq F')
  have FS: "front_len s \<le> cap s" using split_bounds [OF wf sp] by simp
  show "unsplit_inv (s\<lparr>read_cursor := ?r'\<rparr>)"
  proof (rule unsplit_inv_readI)
    show "unat (write_cursor s - ?r') \<le> cap s" using FS by (simp only: weq F')
    show "phys s ?r' + unat (write_cursor s - ?r') \<le> cap s" if "write_cursor s \<noteq> ?r'"
    proof -
      have "F - n \<noteq> 0" using that by (simp only: weq [symmetric]) simp
      then have "front_len s - unat n \<noteq> 0"
        using F' by (simp add: unat_eq_zero [symmetric] del: unat_eq_zero)
      then have "unat n < cap s" using FS by simp
      moreover have "phys s ?r' = unat n mod cap s" by (rule phys_front [OF wf])
      ultimately have "phys s ?r' = unat n" by simp
      then show ?thesis using FS nle by (simp only: weq F')
    qed
  qed
qed

lemma consume_cases:
  assumes inv: "design_inv s" and cons: "ijcringbuffer_consume s n = Inr s'"
  obtains (unsplit) "unsplit_inv s" "n \<le> write_cursor s - read_cursor s"
      "s' = s\<lparr>read_cursor := read_cursor s + n\<rparr>" "unsplit_inv s'"
  | (tail) "split_inv s" "read_cursor s \<noteq> wrap_cursor s" "n \<le> wrap_cursor s - read_cursor s"
      "s' = s\<lparr>read_cursor := read_cursor s + n\<rparr>" "split_inv s'"
  | (drained) "split_inv s" "read_cursor s = wrap_cursor s"
      "n \<le> (if write_cursor s AND mask_rb s \<noteq> 0 then write_cursor s AND mask_rb s
             else size_rb s)"
      "s' = s\<lparr>read_cursor := read_cursor s
                + (size_rb s + (size_rb s - (read_cursor s AND mask_rb s)) + n)\<rparr>"
      "unsplit_inv s'"
proof (cases "split_inv s")
  case False
  then have un: "unsplit_inv s" using design_invD(3) [OF inv] by simp
  have n: "n \<le> write_cursor s - read_cursor s"
    using cons cs_unsplit [OF un, of True]
    by (auto simp: ijcringbuffer_consume_def ijcringbuffer_consumeable_size_continuous_def
        split: if_splits)
  from consume_unsplit [OF inv un n] cons unsplit [OF un n] show ?thesis by simp
next
  case sp: True
  show ?thesis
  proof (cases "read_cursor s = wrap_cursor s")
    case False
    have n: "n \<le> wrap_cursor s - read_cursor s"
      using cons cs_split_tail [OF inv sp False, of True]
      by (auto simp: ijcringbuffer_consume_def ijcringbuffer_consumeable_size_continuous_def
          split: if_splits)
    from consume_split_tail(1,2) [OF inv sp False n] cons tail [OF sp False n]
    show ?thesis by simp
  next
    case True
    have n: "n \<le> (if write_cursor s AND mask_rb s \<noteq> 0 then write_cursor s AND mask_rb s
             else size_rb s)"
      using cons cs_split_drained [OF inv sp True, of True]
      by (auto simp: ijcringbuffer_consume_def ijcringbuffer_consumeable_size_continuous_def
          split: if_splits)
    from consume_split_drained(1,2) [OF inv sp True n] cons drained [OF sp True n]
    show ?thesis by simp
  qed
qed

subsection \<open>Produce\<close>

lemma split_invI:
  assumes "1 \<le> front_len s"
    and "tail_len s = 0 \<Longrightarrow> front_len s \<le> cap s"
    and "tail_len s \<noteq> 0 \<Longrightarrow> front_len s \<le> phys s (read_cursor s)"
    and "tail_len s \<noteq> 0 \<Longrightarrow> phys s (read_cursor s) + tail_len s \<le> cap s"
  shows "split_inv s"
  using assms by (simp add: split_inv_def)

lemma write_update_facts:
  "tail_len (s\<lparr>data := b, write_cursor := c\<rparr>) = tail_len s"
  "cap (s\<lparr>data := b, write_cursor := c\<rparr>) = cap s"
  "phys (s\<lparr>data := b, write_cursor := c\<rparr>) x = phys s x"
  "read_cursor (s\<lparr>data := b, write_cursor := c\<rparr>) = read_cursor s"
  "well_formed (s\<lparr>data := b, write_cursor := c\<rparr>) = well_formed s"
  "size_rb (s\<lparr>data := b, write_cursor := c\<rparr>) = size_rb s"
  by (simp_all add: tail_len_def cap_def phys_def well_formed_def)

lemma front_len_write_add:
  assumes "front_len s + unat n \<le> cap s"
  shows "front_len (s\<lparr>data := b, write_cursor := write_cursor s + n\<rparr>) = front_len s + unat n"
proof -
  define F where "F = write_cursor s - wrap_cursor s - 2 * size_rb s + (wrap_cursor s AND mask_rb s)"
  have F: "unat F = front_len s" by (simp add: F_def front_len_def)
  have weq: "write_cursor s + n - wrap_cursor s - 2 * size_rb s + (wrap_cursor s AND mask_rb s) = F + n"
    by (simp add: F_def)
  have "front_len (s\<lparr>data := b, write_cursor := write_cursor s + n\<rparr>)
      = unat (write_cursor s + n - wrap_cursor s - 2 * size_rb s + (wrap_cursor s AND mask_rb s))"
    by (simp add: front_len_def)
  also have "\<dots> = unat (F + n)" by (simp only: weq)
  also have "\<dots> = unat F + unat n"
    by (rule unat_add2) (use assms cap_lt [of s] F in simp)
  finally show ?thesis by (simp add: F)
qed

lemma produce_split_drained:
  assumes inv: "design_inv s" and sp: "split_inv s" and eq: "read_cursor s = wrap_cursor s"
  shows "ijcringbuffer_produce s d n =
           (if unat n \<le> cap s - front_len s
            then Inr (s\<lparr>data := memcpy (data s) (unat (write_cursor s AND mask_rb s)) d (unat n),
                        write_cursor := write_cursor s + n\<rparr>, 1)
            else Inr (s, 0))"
    and "unat n \<le> cap s - front_len s \<Longrightarrow>
           split_inv (s\<lparr>data := memcpy (data s) (unat (write_cursor s AND mask_rb s)) d (unat n),
                        write_cursor := write_cursor s + n\<rparr>)"
    and "unat n \<le> cap s - front_len s \<Longrightarrow>
           unat (write_cursor s AND mask_rb s) + unat n \<le> cap s"
proof -
  note wf = design_invD(1) [OF inv] and cap = design_invD(2) [OF inv]
  note b = split_bounds [OF wf sp]
  have split: "ijcringbuffer__is_split s" by (rule split_is_split [OF wf cap sp])
  have p: "phys s (write_cursor s) = front_len s mod cap s" by (rule phys_write_split [OF wf])
  have m: "unat (size_rb s - (write_cursor s AND mask_rb s)) = cap s - phys s (write_cursor s)"
    by (rule unat_size_sub_mask [OF wf])
  have avail: "unat (if write_cursor s AND mask_rb s \<noteq> 0
                   then size_rb s - (write_cursor s AND mask_rb s) else 0)
        = cap s - front_len s"
  proof (cases "front_len s = cap s")
    case True
    then have "phys s (write_cursor s) = 0" using p by simp
    then have "write_cursor s AND mask_rb s = 0" by (simp add: phys_def unat_eq_zero)
    then show ?thesis using True by simp
  next
    case False
    then have lt: "front_len s < cap s" using b(2) by simp
    then have pf: "phys s (write_cursor s) = front_len s" using p by simp
    then have "write_cursor s AND mask_rb s \<noteq> 0" using b(3) by (auto simp: phys_def)
    then show ?thesis using m pf by simp
  qed
  show "ijcringbuffer_produce s d n =
           (if unat n \<le> cap s - front_len s
            then Inr (s\<lparr>data := memcpy (data s) (unat (write_cursor s AND mask_rb s)) d (unat n),
                        write_cursor := write_cursor s + n\<rparr>, 1)
            else Inr (s, 0))"
    using split eq avail [symmetric]
    by (simp add: ijcringbuffer_produce_def Let_def word_le_nat_alt del: unsigned_eq_0_iff)
  assume n: "unat n \<le> cap s - front_len s"
  have fl: "front_len (s\<lparr>data := memcpy (data s) (unat (write_cursor s AND mask_rb s)) d (unat n),
                        write_cursor := write_cursor s + n\<rparr>) = front_len s + unat n"
    by (rule front_len_write_add) (use n b(2) in simp)
  have T0: "tail_len s = 0" using eq by (simp add: tail_len_zero_iff)
  show "split_inv (s\<lparr>data := memcpy (data s) (unat (write_cursor s AND mask_rb s)) d (unat n),
                        write_cursor := write_cursor s + n\<rparr>)"
    by (rule split_invI) (use n b T0 in \<open>simp_all add: write_update_facts fl\<close>)
  have "phys s (write_cursor s) \<le> front_len s" using p by (simp add: mod_le_divisor b)
  show "unat (write_cursor s AND mask_rb s) + unat n \<le> cap s"
  proof (cases "front_len s = cap s")
    case True
    then show ?thesis using n p phys_lt [OF wf, of "write_cursor s"] by (simp add: phys_def)
  next
    case False
    then have "phys s (write_cursor s) = front_len s" using p b(2) by simp
    then show ?thesis using n b(2) by (simp add: phys_def)
  qed
qed

lemma produce_split_tail:
  assumes inv: "design_inv s" and sp: "split_inv s" and ne: "read_cursor s \<noteq> wrap_cursor s"
  shows "ijcringbuffer_produce s d n =
           (if unat n \<le> phys s (read_cursor s) - front_len s
            then Inr (s\<lparr>data := memcpy (data s) (unat (write_cursor s AND mask_rb s)) d (unat n),
                        write_cursor := write_cursor s + n\<rparr>, 1)
            else Inr (s, 0))"
    and "unat n \<le> phys s (read_cursor s) - front_len s \<Longrightarrow>
           split_inv (s\<lparr>data := memcpy (data s) (unat (write_cursor s AND mask_rb s)) d (unat n),
                        write_cursor := write_cursor s + n\<rparr>)"
    and "unat n \<le> phys s (read_cursor s) - front_len s \<Longrightarrow>
           unat (write_cursor s AND mask_rb s) + unat n \<le> cap s"
proof -
  note wf = design_invD(1) [OF inv] and cap = design_invD(2) [OF inv]
  note b = split_bounds [OF wf sp]
  note f = split_tail_facts [OF inv sp ne]
  have split: "ijcringbuffer__is_split s" by (rule split_is_split [OF wf cap sp])
  have pw: "phys s (write_cursor s) = front_len s" using f(2) by (simp add: phys_def)
  have pr: "phys s (read_cursor s) < cap s" by (rule phys_lt [OF wf])
  have le: "write_cursor s AND mask_rb s \<le> read_cursor s AND mask_rb s"
    using f(5) pw by (simp add: word_le_nat_alt phys_def)
  have avail: "unat ((read_cursor s - write_cursor s) AND mask_rb s)
        = phys s (read_cursor s) - front_len s"
    using phys_diff [OF wf, of "write_cursor s" "read_cursor s"] f(5) pw by (simp add: phys_def)
  show "ijcringbuffer_produce s d n =
           (if unat n \<le> phys s (read_cursor s) - front_len s
            then Inr (s\<lparr>data := memcpy (data s) (unat (write_cursor s AND mask_rb s)) d (unat n),
                        write_cursor := write_cursor s + n\<rparr>, 1)
            else Inr (s, 0))"
    using split ne le avail [symmetric]
    by (simp add: ijcringbuffer_produce_def Let_def word_le_nat_alt)
  assume n: "unat n \<le> phys s (read_cursor s) - front_len s"
  have fl: "front_len (s\<lparr>data := memcpy (data s) (unat (write_cursor s AND mask_rb s)) d (unat n),
                        write_cursor := write_cursor s + n\<rparr>) = front_len s + unat n"
    by (rule front_len_write_add) (use n pr f(5) in simp)
  have T0: "tail_len s \<noteq> 0" using ne by (simp add: tail_len_zero_iff)
  show "split_inv (s\<lparr>data := memcpy (data s) (unat (write_cursor s AND mask_rb s)) d (unat n),
                        write_cursor := write_cursor s + n\<rparr>)"
    by (rule split_invI) (use n b f(5,6) T0 in \<open>simp_all add: write_update_facts fl\<close>)
  show "unat (write_cursor s AND mask_rb s) + unat n \<le> cap s"
    using n pr f(2,5) by simp
qed

lemma front_update_facts:
  "tail_len (s\<lparr>wrap_cursor := a, data := b, write_cursor := c\<rparr>) = unat (a - read_cursor s)"
  "cap (s\<lparr>wrap_cursor := a, data := b, write_cursor := c\<rparr>) = cap s"
  "phys (s\<lparr>wrap_cursor := a, data := b, write_cursor := c\<rparr>) x = phys s x"
  "read_cursor (s\<lparr>wrap_cursor := a, data := b, write_cursor := c\<rparr>) = read_cursor s"
  by (simp_all add: tail_len_def cap_def phys_def)

lemma front_len_inflated:
  "front_len (s\<lparr>wrap_cursor := write_cursor s, data := b,
                write_cursor := write_cursor s
                  + (size_rb s + (size_rb s - (write_cursor s AND mask_rb s)) + n)\<rparr>) = unat n"
proof -
  have "write_cursor s + (size_rb s + (size_rb s - (write_cursor s AND mask_rb s)) + n)
          - write_cursor s - 2 * size_rb s + (write_cursor s AND mask_rb s) = n"
    by simp
  then show ?thesis by (simp add: front_len_def)
qed

lemma front_split_inv:
  assumes inv: "design_inv s" and un: "unsplit_inv s" and n0: "n \<noteq> 0"
    and n: "if write_cursor s = read_cursor s then unat n < cap s
            else unat n \<le> phys s (read_cursor s)"
  shows "split_inv (s\<lparr>wrap_cursor := write_cursor s, data := b,
                write_cursor := write_cursor s
                  + (size_rb s + (size_rb s - (write_cursor s AND mask_rb s)) + n)\<rparr>)"
proof (rule split_invI)
  note wf = design_invD(1) [OF inv]
  let ?s' = "s\<lparr>wrap_cursor := write_cursor s, data := b,
                write_cursor := write_cursor s
                  + (size_rb s + (size_rb s - (write_cursor s AND mask_rb s)) + n)\<rparr>"
  have fl: "front_len ?s' = unat n" by (rule front_len_inflated)
  have tl: "tail_len ?s' = unat (write_cursor s - read_cursor s)" by (simp add: tail_len_def)
  have pr: "phys s (read_cursor s) < cap s" by (rule phys_lt [OF wf])
  show "1 \<le> front_len ?s'" unfolding fl using n0 by (simp add: unat_gt_0 Suc_le_eq)
  show "front_len ?s' \<le> cap ?s'" if "tail_len ?s' = 0"
    unfolding fl front_update_facts using n pr by (simp split: if_splits)
  have ne: "write_cursor s \<noteq> read_cursor s" if "tail_len ?s' \<noteq> 0"
    using that unfolding tl by auto
  show "front_len ?s' \<le> phys ?s' (read_cursor ?s')" if "tail_len ?s' \<noteq> 0"
    unfolding fl front_update_facts using n ne [OF that] by simp
  show "phys ?s' (read_cursor ?s') + tail_len ?s' \<le> cap ?s'" if "tail_len ?s' \<noteq> 0"
    unfolding tl front_update_facts using un ne [OF that] by (simp add: unsplit_inv_def)
qed

lemma is_split_front:
  assumes inv: "design_inv s" and un: "unsplit_inv s" and n0: "n \<noteq> 0"
    and n: "if write_cursor s = read_cursor s then unat n < cap s
            else unat n \<le> phys s (read_cursor s)"
  shows "ijcringbuffer__is_split
           (s\<lparr>wrap_cursor := write_cursor s, data := b,
               write_cursor := write_cursor s
                 + (size_rb s + (size_rb s - (write_cursor s AND mask_rb s)) + n)\<rparr>)"
proof -
  let ?s' = "s\<lparr>wrap_cursor := write_cursor s, data := b,
               write_cursor := write_cursor s
                 + (size_rb s + (size_rb s - (write_cursor s AND mask_rb s)) + n)\<rparr>"
  have "split_inv ?s'" by (rule front_split_inv [OF inv un n0 n])
  moreover have "well_formed ?s'" using design_invD(1) [OF inv] by (simp add: well_formed_def)
  moreover have "cap ?s' \<le> 2 ^ 29" using design_invD(2) [OF inv] by (simp add: cap_def)
  ultimately show ?thesis by (intro split_is_split)
qed

lemma unsplit_inv_writeI:
  assumes "unat (c - read_cursor s) \<le> cap s"
    and "c \<noteq> read_cursor s \<Longrightarrow> phys s (read_cursor s) + unat (c - read_cursor s) \<le> cap s"
  shows "unsplit_inv (s\<lparr>data := b, write_cursor := c\<rparr>)"
  using assms by (simp add: unsplit_inv_def cap_def phys_def)

lemma back_unsplit_inv:
  assumes inv: "design_inv s" and un: "unsplit_inv s"
    and c1: "\<not> (write_cursor s AND mask_rb s \<noteq> 0 \<and> write_cursor s = read_cursor s \<and> n \<le> size_rb s)"
    and c2: "\<not> (write_cursor s AND mask_rb s = 0 \<and> write_cursor s \<noteq> read_cursor s)"
    and c3: "n \<le> size_rb s - (write_cursor s AND mask_rb s)"
  shows "unsplit_inv (s\<lparr>data := b, write_cursor := write_cursor s + n\<rparr>)"
    and "unat (write_cursor s AND mask_rb s) + unat n \<le> cap s"
    and "unat (write_cursor s + n - read_cursor s) = unat (write_cursor s - read_cursor s) + unat n"
proof -
  note wf = design_invD(1) [OF inv] and cap = design_invD(2) [OF inv]
  define D where "D = write_cursor s - read_cursor s"
  have weq: "write_cursor s + n - read_cursor s = D + n" by (simp add: D_def)
  have w: "write_cursor s = read_cursor s + D" by (simp add: D_def)
  have m: "unat (size_rb s - (write_cursor s AND mask_rb s)) = cap s - phys s (write_cursor s)"
    by (rule unat_size_sub_mask [OF wf])
  have pw: "phys s (write_cursor s) < cap s" by (rule phys_lt [OF wf])
  have n: "unat n \<le> cap s - phys s (write_cursor s)" using c3 m by (simp add: word_le_nat_alt)
  show r2: "unat (write_cursor s AND mask_rb s) + unat n \<le> cap s"
    using n pw by (simp add: phys_def)
  have DS: "unat D \<le> cap s" using un by (simp add: unsplit_inv_def D_def)
  have add: "unat (D + n) = unat D + unat n"
    by (rule unat_add2) (use DS n cap in simp)
  show "unat (write_cursor s + n - read_cursor s) = unat (write_cursor s - read_cursor s) + unat n"
    unfolding weq add by (simp add: D_def)
  have bound: "phys s (read_cursor s) + (unat D + unat n) \<le> cap s"
  proof (cases "write_cursor s = read_cursor s")
    case True
    have "n \<le> size_rb s" using n by (simp add: word_le_nat_alt cap_def)
    with c1 True have "write_cursor s AND mask_rb s = 0" by simp
    then have "phys s (read_cursor s) = 0" using True by (simp add: phys_def)
    moreover have "unat D = 0" using True by (simp add: D_def)
    ultimately show ?thesis using n by simp
  next
    case False
    with c2 have "write_cursor s AND mask_rb s \<noteq> 0" by simp
    then have p0: "phys s (write_cursor s) \<noteq> 0" by (simp add: phys_def unat_eq_zero)
    have b: "phys s (read_cursor s) + unat D \<le> cap s"
      using un False by (simp add: unsplit_inv_def D_def)
    have "phys s (write_cursor s) = (phys s (read_cursor s) + unat D) mod cap s"
      by (subst w) (rule phys_add [OF wf])
    with p0 b have "phys s (write_cursor s) = phys s (read_cursor s) + unat D"
      by (cases "phys s (read_cursor s) + unat D = cap s") simp_all
    then show ?thesis using n pw by simp
  qed
  show "unsplit_inv (s\<lparr>data := b, write_cursor := write_cursor s + n\<rparr>)"
  proof (rule unsplit_inv_writeI)
    show "unat (write_cursor s + n - read_cursor s) \<le> cap s"
      using bound by (simp only: weq add)
    show "phys s (read_cursor s) + unat (write_cursor s + n - read_cursor s) \<le> cap s"
      using bound by (simp only: weq add)
  qed
qed

subsection \<open>Every operation keeps the invariant\<close>

lemma design_inv_frame:
  assumes "design_inv s" and "size_rb s' = size_rb s" and "mask_rb s' = mask_rb s"
    and "unsplit_inv s' \<or> split_inv s'"
  shows "design_inv s'"
  using assms by (simp add: design_inv_def well_formed_def)

lemma produce_preserves:
  assumes inv: "design_inv s" and n0: "n \<noteq> 0"
    and prod: "ijcringbuffer_produce s d n = Inr (s', rc)"
  shows "design_inv s'"
proof -
  note wf = design_invD(1) [OF inv] and cap = design_invD(2) [OF inv]
  note fr = produce_frame [OF prod]
  have pr: "phys s (read_cursor s) < cap s" by (rule phys_lt [OF wf])
  have "unsplit_inv s' \<or> split_inv s'"
  proof (cases "split_inv s")
    case True
    show ?thesis
    proof (cases "read_cursor s = wrap_cursor s")
      case eq: True
      show ?thesis
        using produce_split_drained(1,2) [OF inv True eq, where d = d and n = n] prod True
        by (auto split: if_splits)
    next
      case ne: False
      show ?thesis
        using produce_split_tail(1,2) [OF inv True ne, where d = d and n = n] prod True
        by (auto split: if_splits)
    qed
  next
    case False
    then have un: "unsplit_inv s" using design_invD(3) [OF inv] by simp
    then have ns: "\<not> ijcringbuffer__is_split s" by (rule unsplit_not_split)
    let ?front = "s\<lparr>wrap_cursor := write_cursor s, data := memcpy (data s) 0 d (unat n),
                write_cursor := write_cursor s
                  + (size_rb s + (size_rb s - (write_cursor s AND mask_rb s)) + n)\<rparr>"
    have front: "split_inv s'" if wtf: "write_to_front s d n = Inr (s', rc)"
      and c: "write_cursor s \<noteq> read_cursor s \<Longrightarrow> unat n \<le> phys s (read_cursor s)"
    proof -
      note res = write_to_front_result [OF wtf]
      note post = res [THEN conjunct2, THEN conjunct2]
      have "unat n < cap s"
        using phys_lt [OF wf, of "write_cursor s'"] unfolding phys_def post .
      then have "split_inv ?front"
        using c by (intro front_split_inv [OF inv un n0]) simp
      then show ?thesis by (simp only: res [THEN conjunct1])
    qed
    have chk: "unsplit_inv s' \<or> split_inv s'" if cf: "check_front s d n = Inr (s', rc)"
    proof (cases "n \<le> read_cursor s AND mask_rb s")
      case True
      then have "write_to_front s d n = Inr (s', rc)" using cf by (simp add: check_front_def)
      moreover have "unat n \<le> phys s (read_cursor s)"
        using True by (simp add: word_le_nat_alt phys_def)
      ultimately show ?thesis using front by simp
    next
      case False
      then have "s' = s" using cf by (simp add: check_front_def)
      then show ?thesis using un by simp
    qed
    note pe = produce_not_split [OF ns, of d n]
    show ?thesis
    proof (cases "write_cursor s AND mask_rb s \<noteq> 0 \<and> write_cursor s = read_cursor s
                    \<and> n \<le> size_rb s")
      case True
      have "write_to_front s d n = Inr (s', rc)"
        using prod by (simp only: pe if_P [OF True])
      then show ?thesis using front True by simp
    next
      case c1: False
      show ?thesis
      proof (cases "write_cursor s AND mask_rb s = 0 \<and> write_cursor s \<noteq> read_cursor s")
        case True
        have "check_front s d n = Inr (s', rc)"
          using prod by (simp only: pe if_not_P [OF c1] if_P [OF True])
        then show ?thesis by (rule chk)
      next
        case c2: False
        show ?thesis
        proof (cases "n \<le> size_rb s - (write_cursor s AND mask_rb s)")
          case True
          have "s' = s\<lparr>data := memcpy (data s) (unat (write_cursor s AND mask_rb s)) d (unat n),
                            write_cursor := write_cursor s + n\<rparr>"
            using prod by (simp only: pe if_not_P [OF c1] if_not_P [OF c2] if_P [OF True]) simp
          then show ?thesis using back_unsplit_inv(1) [OF inv un c1 c2 True] by simp
        next
          case False
          have "check_front s d n = Inr (s', rc)"
            using prod by (simp only: pe if_not_P [OF c1] if_not_P [OF c2] if_not_P [OF False])
          then show ?thesis by (rule chk)
        qed
      qed
    qed
  qed
  then show ?thesis using inv fr by (intro design_inv_frame [of s s']) simp_all
qed

lemma consume_preserves:
  assumes inv: "design_inv s" and cons: "ijcringbuffer_consume s n = Inr s'"
  shows "design_inv s'"
proof -
  have "unsplit_inv s' \<or> split_inv s'"
    using inv cons by (cases rule: consume_cases) simp_all
  then show ?thesis
    using inv consume_frame [OF cons] by (intro design_inv_frame [of s s']) simp_all
qed

lemma reach_design_inv:
  assumes "reach (\<lambda>n. n \<noteq> 0) s"
  shows "size_rb s \<le> 2 ^ 29 \<longrightarrow> design_inv s"
  using assms
proof (induction rule: reach.induct)
  case (reach_init d n s)
  then show ?case
    by (auto simp: ijcringbuffer_init_def design_inv_def well_formed_def unsplit_inv_def
        split: if_splits)
next
  case (reach_reset s)
  then show ?case
    by (simp add: design_inv_def well_formed_def unsplit_inv_def ijcringbuffer_reset_def)
next
  case (reach_produce s n d s' rc)
  then show ?case using produce_frame [of s d n s' rc] produce_preserves [of s n d s' rc] by simp
next
  case (reach_consume s n s')
  then show ?case using consume_frame [of s n s'] consume_preserves [of s n s'] by simp
qed

lemma design_reachable:
  "reachable_nonzero s \<Longrightarrow> size_rb s \<le> 2 ^ 29 \<Longrightarrow> design_inv s"
  using reach_design_inv [of s] by (simp add: reachable_nonzero_def)

section \<open>What every reachable state satisfies\<close>

text \<open>
  The design invariant is lost at a capacity of \<open>2 ^ 30\<close> and by a zero-length
  \<^verbatim>\<open>produce\<close> that goes to the front. The predicate \<open>cursor_inv\<close> is weaker and is kept by
  every call that returns, at every capacity and for every length.
\<close>

subsection \<open>Remainders and distances\<close>

lemma mod_two:
  fixes x S :: nat
  assumes "x < 2 * S"
  shows "x mod S = (if x < S then x else x - S)"
  using assms by (auto simp: mod_if)

lemma mod_top:
  fixes a d S N :: nat
  assumes dvd: "S dvd N" and pos: "0 < S" and d: "N \<le> d + S"
  shows "(a + d) mod S = (a + (d + S - N)) mod S"
proof -
  from dvd obtain q where q: "N = S * q" by (auto elim: dvdE)
  have "0 < q \<or> N = 0" using q by (cases q) simp_all
  then show ?thesis
  proof
    assume qp: "0 < q"
    then have "N = S + S * (q - 1)" using q by (cases q) simp_all
    then have "a + d = a + (d + S - N) + S * (q - 1)" using d by simp
    then show ?thesis by (simp only: mod_mult_self2)
  next
    assume "N = 0"
    then have "a + (d + S - N) = a + d + S" by simp
    then show ?thesis by (simp only: mod_add_self2)
  qed
qed

lemma unat_sub_cases:
  fixes a b :: u32
  shows "unat (a - b) = (if unat b \<le> unat a then unat a - unat b else 2 ^ 32 + unat a - unat b)"
proof (cases "unat b \<le> unat a")
  case True
  then show ?thesis using unat_sub_if' [of a b] by simp
next
  case False
  then have "unat (a - b) = unat a + 2 ^ 32 - unat b" using unat_sub_if' [of a b] by (simp add: word_size)
  then show ?thesis using False by simp
qed

lemma phys_lead:
  assumes "well_formed s"
  shows "phys s (write_cursor s) = (phys s (read_cursor s) + lead s) mod cap s"
  using phys_add [OF assms, of "read_cursor s" "write_cursor s - read_cursor s"]
  by (simp add: lead_def)

lemma is_split_lead:
  "ijcringbuffer__is_split s \<longleftrightarrow> cap s < lead s \<and> lead s + cap s < 2 ^ 32"
  by (simp add: is_split_iff lead_def)

lemma lead_lt: "lead s < 2 ^ 32"
  using unsigned_less [of "write_cursor s - read_cursor s", where 'a = nat] by (simp add: lead_def)

lemma tail_len_lt: "tail_len s < 2 ^ 32"
  using unsigned_less [of "wrap_cursor s - read_cursor s", where 'a = nat] by (simp add: tail_len_def)

lemma lead_split:
  assumes wf: "well_formed s" and cap: "cap s \<le> 2 ^ 30"
    and t: "tail_len s < cap s" and g: "front_len s \<le> cap s"
  shows "lead s = tail_len s + 2 * cap s - phys s (wrap_cursor s) + front_len s"
proof -
  define T where "T = wrap_cursor s - read_cursor s"
  define m where "m = size_rb s - (wrap_cursor s AND mask_rb s)"
  define F where "F = write_cursor s - wrap_cursor s - 2 * size_rb s + (wrap_cursor s AND mask_rb s)"
  have m: "unat m = cap s - phys s (wrap_cursor s)"
    unfolding m_def by (rule unat_size_sub_mask [OF wf])
  have p: "phys s (wrap_cursor s) < cap s" by (rule phys_lt [OF wf])
  have T: "unat T = tail_len s" by (simp add: T_def tail_len_def)
  have F: "unat F = front_len s" by (simp add: F_def front_len_def)
  have eq: "write_cursor s - read_cursor s = T + size_rb s + m + F"
    by (simp add: T_def m_def F_def)
  have "unat (T + size_rb s + m + F) = unat T + unat (size_rb s) + unat m + unat F"
    by (rule unat_add4) (use cap t g p m T F in \<open>simp add: cap_def\<close>)
  then show ?thesis unfolding lead_def eq using p m T F by (simp add: cap_def)
qed

lemma lead_zero_iff: "lead s = 0 \<longleftrightarrow> write_cursor s = read_cursor s"
  by (simp add: lead_def unat_eq_zero)

lemma phys_zero_iff: "phys s x = 0 \<longleftrightarrow> x AND mask_rb s = 0"
  by (simp add: phys_def unat_eq_zero)

lemma split_cap:
  assumes wf: "well_formed s" and split: "ijcringbuffer__is_split s"
  shows "cap s \<le> 2 ^ 30"
proof -
  obtain k where k: "k < 32" "cap s = 2 ^ k" using well_formed_pow2 [OF wf] by blast
  have "2 * cap s < 2 ^ 32" using split by (simp add: is_split_lead)
  then have "(2::nat) ^ Suc k < 2 ^ 32" by (simp add: k(2))
  then have "Suc k < 32" by (rule power_less_imp_less_exp [rotated]) simp
  then have "k \<le> 30" by simp
  then have "(2::nat) ^ k \<le> 2 ^ 30" by (rule power_increasing) simp
  then show ?thesis by (simp only: k(2))
qed

lemma cursor_invI:
  assumes "well_formed s"
    and "cap s \<le> 2 ^ 30 \<Longrightarrow> cap s < lead s \<Longrightarrow> lead s + cap s < 2 ^ 32 \<Longrightarrow> tail_len s < cap s \<Longrightarrow>
           front_len s \<le> cap s \<and> (tail_len s \<noteq> 0 \<longrightarrow> front_len s < cap s)"
    and "cap s \<le> 2 ^ 30 \<Longrightarrow> 0 < lead s \<Longrightarrow> lead s \<le> cap s \<Longrightarrow>
           cap s < phys s (read_cursor s) + lead s \<Longrightarrow>
           2 * cap s \<le> tail_len s + phys s (read_cursor s)"
  shows "cursor_inv s"
  using assms unfolding cursor_inv_def is_split_lead cap_le_iff by blast

lemma cursor_invD:
  assumes "cursor_inv s"
  shows "well_formed s"
    and "cap s \<le> 2 ^ 30 \<Longrightarrow> cap s < lead s \<Longrightarrow> lead s + cap s < 2 ^ 32 \<Longrightarrow> tail_len s < cap s \<Longrightarrow>
           front_len s \<le> cap s"
    and "cap s \<le> 2 ^ 30 \<Longrightarrow> cap s < lead s \<Longrightarrow> lead s + cap s < 2 ^ 32 \<Longrightarrow> tail_len s < cap s \<Longrightarrow>
           tail_len s \<noteq> 0 \<Longrightarrow> front_len s < cap s"
    and "cap s \<le> 2 ^ 30 \<Longrightarrow> 0 < lead s \<Longrightarrow> lead s \<le> cap s \<Longrightarrow>
           cap s < phys s (read_cursor s) + lead s \<Longrightarrow>
           2 * cap s \<le> tail_len s + phys s (read_cursor s)"
  using assms unfolding cursor_inv_def is_split_lead cap_le_iff by blast+

lemma empty_cursor_inv:
  assumes "well_formed s" and "write_cursor s = read_cursor s"
  shows "cursor_inv s"
proof (rule cursor_invI [OF assms(1)])
  have "lead s = 0" using assms(2) by (simp add: lead_def)
  then show "cap s < lead s \<Longrightarrow> front_len s \<le> cap s \<and> (tail_len s \<noteq> 0 \<longrightarrow> front_len s < cap s)"
    and "0 < lead s \<Longrightarrow> 2 * cap s \<le> tail_len s + phys s (read_cursor s)"
    by simp_all
qed

subsection \<open>Consume\<close>

lemma read_update:
  "well_formed (s\<lparr>read_cursor := x\<rparr>) = well_formed s"
  "cap (s\<lparr>read_cursor := x\<rparr>) = cap s"
  "phys (s\<lparr>read_cursor := x\<rparr>) y = phys s y"
  "front_len (s\<lparr>read_cursor := x\<rparr>) = front_len s"
  "lead (s\<lparr>read_cursor := x\<rparr>) = unat (write_cursor s - x)"
  "tail_len (s\<lparr>read_cursor := x\<rparr>) = unat (wrap_cursor s - x)"
  by (simp_all add: well_formed_def cap_def phys_def front_len_def lead_def tail_len_def)

lemma lead_consumed:
  "unat (write_cursor s - (read_cursor s + n))
     = (if unat n \<le> lead s then lead s - unat n else 2 ^ 32 + lead s - unat n)"
proof -
  have "write_cursor s - (read_cursor s + n) = (write_cursor s - read_cursor s) - n" by simp
  then show ?thesis by (simp only: unat_sub_cases lead_def)
qed

lemma tail_consumed:
  "unat (wrap_cursor s - (read_cursor s + n))
     = (if unat n \<le> tail_len s then tail_len s - unat n else 2 ^ 32 + tail_len s - unat n)"
proof -
  have "wrap_cursor s - (read_cursor s + n) = (wrap_cursor s - read_cursor s) - n" by simp
  then show ?thesis by (simp only: unat_sub_cases tail_len_def)
qed

lemma lead_collapsed:
  assumes "read_cursor s = wrap_cursor s"
  shows "unat (write_cursor s
               - (read_cursor s + (size_rb s + (size_rb s - (read_cursor s AND mask_rb s)) + n)))
         = (if unat n \<le> front_len s then front_len s - unat n else 2 ^ 32 + front_len s - unat n)"
proof -
  define F where "F = write_cursor s - wrap_cursor s - 2 * size_rb s + (wrap_cursor s AND mask_rb s)"
  have "write_cursor s
          - (read_cursor s + (size_rb s + (size_rb s - (read_cursor s AND mask_rb s)) + n)) = F - n"
    by (simp add: F_def assms)
  moreover have "unat F = front_len s" by (simp add: F_def front_len_def)
  ultimately show ?thesis by (simp only: unat_sub_cases)
qed

lemma consume_paths:
  assumes wf: "well_formed s" and c: "ijcringbuffer_consume s n = Inr s'"
  shows "(ijcringbuffer__is_split s \<and> read_cursor s = wrap_cursor s \<and>
            unat n \<le> (if phys s (write_cursor s) = 0 then cap s else phys s (write_cursor s)) \<and>
            s' = s\<lparr>read_cursor := read_cursor s
                     + (size_rb s + (size_rb s - (read_cursor s AND mask_rb s)) + n)\<rparr>)
       \<or> (ijcringbuffer__is_split s \<and> tail_len s \<noteq> 0 \<and>
            (tail_len s < cap s \<or> 2 ^ 32 < tail_len s + cap s) \<and>
            unat n \<le> tail_len s mod cap s \<and> s' = s\<lparr>read_cursor := read_cursor s + n\<rparr>)
       \<or> (\<not> ijcringbuffer__is_split s \<and> lead s \<le> cap s \<and> unat n \<le> lead s \<and>
            s' = s\<lparr>read_cursor := read_cursor s + n\<rparr>)"
proof (cases "ijcringbuffer__is_split s")
  case False
  have cs: "consumeable_size_cs s True = write_cursor s - read_cursor s"
    using False by (simp add: consumeable_size_cs_def)
  have "consumeable_size_cs s True \<le> size_rb s \<and> n \<le> consumeable_size_cs s True
        \<and> s' = s\<lparr>read_cursor := read_cursor s + n\<rparr>"
    using c False
    by (auto simp: ijcringbuffer_consume_def ijcringbuffer_consumeable_size_continuous_def
        ijcringbuffer__consumeable_size_def split: if_splits)
  then show ?thesis using False by (simp add: cs word_le_nat_alt lead_def cap_def)
next
  case split: True
  show ?thesis
  proof (cases "read_cursor s = wrap_cursor s")
    case True
    have cs: "consumeable_size_cs s True
                = (if write_cursor s AND mask_rb s \<noteq> 0 then write_cursor s AND mask_rb s
                   else size_rb s)"
      using split True by (simp add: consumeable_size_cs_def)
    have "n \<le> consumeable_size_cs s True
        \<and> s' = s\<lparr>read_cursor := read_cursor s
                     + (size_rb s + (size_rb s - (read_cursor s AND mask_rb s)) + n)\<rparr>"
      using c split True
      by (auto simp: ijcringbuffer_consume_def ijcringbuffer_consumeable_size_continuous_def
          ijcringbuffer__consumeable_size_def split: if_splits)
    then show ?thesis using split True
      by (simp add: cs word_le_nat_alt phys_def cap_def unat_eq_zero split: if_splits)
  next
    case False
    have t0: "tail_len s \<noteq> 0" using False by (simp add: tail_len_zero_iff)
    have cs: "consumeable_size_cs s True = (wrap_cursor s - read_cursor s) AND mask_rb s"
      using split False by (simp add: consumeable_size_cs_def)
    have u: "unat (consumeable_size_cs s True) = tail_len s mod cap s"
      using phys_mod [OF wf, of "wrap_cursor s - read_cursor s"]
      by (simp add: cs phys_def tail_len_def)
    have neg: "read_cursor s - wrap_cursor s = - (wrap_cursor s - read_cursor s)" by simp
    have d: "unat (ijcringbuffer__difference (wrap_cursor s) (read_cursor s))
               = min (tail_len s) (2 ^ 32 - tail_len s)"
      using t0 unfolding difference_unat neg unat_neg tail_len_def by (simp add: unat_eq_zero)
    have "ijcringbuffer__difference (wrap_cursor s) (read_cursor s) < size_rb s
        \<and> n \<le> consumeable_size_cs s True
        \<and> s' = s\<lparr>read_cursor := read_cursor s + n\<rparr>"
      using c split False
      by (auto simp: ijcringbuffer_consume_def ijcringbuffer_consumeable_size_continuous_def
          ijcringbuffer__consumeable_size_def split: if_splits)
    then have "min (tail_len s) (2 ^ 32 - tail_len s) < cap s \<and> unat n \<le> tail_len s mod cap s
        \<and> s' = s\<lparr>read_cursor := read_cursor s + n\<rparr>"
      by (simp only: word_less_nat_alt word_le_nat_alt d u cap_def) 
    then show ?thesis using split t0 tail_len_lt [of s] by (auto simp: min_def split: if_splits)
  qed
qed

lemma consume_cursor_inv:
  assumes inv: "cursor_inv s" and c: "ijcringbuffer_consume s n = Inr s'"
  shows "cursor_inv s'"
proof -
  note wf = cursor_invD(1) [OF inv]
  define S where "S = cap s"
  define rm where "rm = phys s (read_cursor s)"
  define d where "d = lead s"
  define t where "t = tail_len s"
  define g where "g = front_len s"
  define k where "k = unat n"
  have S0: "0 < S" unfolding S_def by (rule cap_pos [OF wf])
  have rmS: "rm < S" unfolding rm_def S_def by (rule phys_lt [OF wf])
  have dvd: "S dvd 2 ^ 32" unfolding S_def by (rule cap_dvd [OF wf])
  have tN: "t < 2 ^ 32" unfolding t_def by (rule tail_len_lt)
  note I1 = cursor_invD(2) [OF inv, folded S_def d_def t_def g_def]
  note I1' = cursor_invD(3) [OF inv, folded S_def d_def t_def g_def]
  note I2 = cursor_invD(4) [OF inv, folded S_def d_def t_def g_def rm_def]
  note sp = is_split_lead [of s, folded S_def d_def]
  from consume_paths [OF wf c] consider
    (collapse) "ijcringbuffer__is_split s" "read_cursor s = wrap_cursor s"
      "unat n \<le> (if phys s (write_cursor s) = 0 then cap s else phys s (write_cursor s))"
      "s' = s\<lparr>read_cursor := read_cursor s
                 + (size_rb s + (size_rb s - (read_cursor s AND mask_rb s)) + n)\<rparr>"
  | (tail) "ijcringbuffer__is_split s" "tail_len s \<noteq> 0"
      "tail_len s < cap s \<or> 2 ^ 32 < tail_len s + cap s"
      "unat n \<le> tail_len s mod cap s" "s' = s\<lparr>read_cursor := read_cursor s + n\<rparr>"
  | (plain) "\<not> ijcringbuffer__is_split s" "lead s \<le> cap s" "unat n \<le> lead s"
      "s' = s\<lparr>read_cursor := read_cursor s + n\<rparr>"
    by blast
  then show ?thesis
  proof cases
    case plain
    define p' where "p' = phys s (read_cursor s + n)"
    have W: "well_formed s'" and C: "cap s' = S" and G: "front_len s' = g"
      and P: "phys s' (read_cursor s') = p'"
      by (simp_all add: plain(4) read_update wf S_def g_def p'_def)
    have D: "lead s' = d - k"
      using plain(3) by (simp add: plain(4) read_update lead_consumed d_def k_def)
    have T: "tail_len s' = (if k \<le> t then t - k else 2 ^ 32 + t - k)"
      by (simp add: plain(4) read_update tail_consumed t_def k_def)
    have dS: "d \<le> S" and kd: "k \<le> d" using plain(2,3) by (simp_all add: d_def S_def k_def)
    have "p' = (rm + k) mod S" unfolding p'_def rm_def k_def S_def by (rule phys_add [OF wf])
    moreover have "rm + k < 2 * S \<Longrightarrow> (rm + k) mod S = (if rm + k < S then rm + k else rm + k - S)"
      by (rule mod_two)
    ultimately have p': "rm + k < 2 * S \<Longrightarrow> p' = (if rm + k < S then rm + k else rm + k - S)"
      by simp
    show ?thesis
    proof (rule cursor_invI [OF W], unfold C G P D T)
      assume "S < d - k"
      then show "g \<le> S \<and> ((if k \<le> t then t - k else 2 ^ 32 + t - k) \<noteq> 0 \<longrightarrow> g < S)"
        using dS by simp
    next
      assume a: "S \<le> 2 ^ 30" "0 < d - k" "d - k \<le> S" "S < p' + (d - k)"
      have lt: "rm + k < 2 * S" using rmS kd dS a(2) by simp
      show "2 * S \<le> (if k \<le> t then t - k else 2 ^ 32 + t - k) + p'"
      proof (cases "S < rm + d")
        case False
        then show ?thesis using a p' [OF lt] kd by (simp split: if_splits)
      next
        case True
        have "2 * S \<le> t + rm" by (rule I2) (use a True dS in simp_all)
        then show ?thesis using a p' [OF lt] kd dS rmS by (simp split: if_splits)
      qed
    qed
  next
    case tail
    define p' where "p' = phys s (read_cursor s + n)"
    have W: "well_formed s'" and C: "cap s' = S" and G: "front_len s' = g"
      and P: "phys s' (read_cursor s') = p'"
      by (simp_all add: tail(5) read_update wf S_def g_def p'_def)
    have t0: "t \<noteq> 0" and tc: "t < S \<or> 2 ^ 32 < t + S" and kt: "k \<le> t mod S"
      using tail(2,3,4) by (simp_all add: t_def S_def k_def)
    have spl: "S < d" "d + S < 2 ^ 32" using tail(1) sp by simp_all
    have "t mod S \<le> t" by (rule mod_less_eq_dividend)
    with kt have kt': "k \<le> t" by (rule le_trans)
    have "t mod S < S" using S0 by (rule mod_less_divisor)
    with kt have kS: "k < S" by (rule le_less_trans)
    have D: "lead s' = d - k"
      using kS spl by (simp add: tail(5) read_update lead_consumed d_def k_def)
    have T: "tail_len s' = t - k"
      using kt' by (simp add: tail(5) read_update tail_consumed t_def k_def)
    have far: "2 ^ 32 \<le> t - k + S" if "2 ^ 32 < t + S"
    proof -
      have "(0 + t) mod S = (0 + (t + S - 2 ^ 32)) mod S"
        by (rule mod_top [OF dvd S0]) (use that in simp)
      moreover have "t + S - 2 ^ 32 < S" using tN S0 by simp
      ultimately have "t mod S = t + S - 2 ^ 32" by simp
      then show ?thesis using kt that by simp
    qed
    show ?thesis
    proof (rule cursor_invI [OF W], unfold C G P D T)
      assume a: "S \<le> 2 ^ 30" "S < d - k" "d - k + S < 2 ^ 32" "t - k < S"
      have "t < S" using far tc a(1,4) by fastforce
      then have "g < S" by (intro I1' a(1) spl t0)
      then show "g \<le> S \<and> (t - k \<noteq> 0 \<longrightarrow> g < S)" by simp
    next
      assume a: "S \<le> 2 ^ 30" "0 < d - k" "d - k \<le> S" "S < p' + (d - k)"
      show "2 * S \<le> t - k + p'"
      proof (cases "t < S")
        case True
        then have gS: "g < S" by (intro I1' a(1) spl t0)
        have "lead s = tail_len s + 2 * cap s - phys s (wrap_cursor s) + front_len s"
          by (rule lead_split [OF wf]) (use a(1) True gS in \<open>simp_all add: S_def t_def g_def\<close>)
        moreover have "phys s (wrap_cursor s) < S" unfolding S_def by (rule phys_lt [OF wf])
        ultimately have "t + S < d" by (simp add: S_def t_def g_def d_def)
        then show ?thesis using a(3) kt' by simp
      next
        case False
        then have "2 ^ 32 \<le> t - k + S" using far tc by simp
        then show ?thesis using a(1) by simp
      qed
    qed
  next
    case collapse
    define p' where "p' = phys s (read_cursor s
                 + (size_rb s + (size_rb s - (read_cursor s AND mask_rb s)) + n))"
    define t' where "t' = tail_len s'"
    have W: "well_formed s'" and C: "cap s' = S" and G: "front_len s' = g"
      and P: "phys s' (read_cursor s') = p'"
      by (simp_all add: collapse(4) read_update wf S_def g_def p'_def)
    have D: "lead s' = (if k \<le> g then g - k else 2 ^ 32 + g - k)"
      by (simp only: collapse(4) read_update lead_collapsed [OF collapse(2)] g_def k_def)
    have spl: "S < d" "d + S < 2 ^ 32" using collapse(1) sp by simp_all
    have t0: "t = 0" using collapse(2) by (simp add: t_def tail_len_def)
    have wm: "phys s (write_cursor s) = g mod S"
      unfolding g_def S_def by (rule phys_write_split [OF wf])
    have kb: "k \<le> (if g mod S = 0 then S else g mod S)"
      using collapse(3) unfolding wm S_def [symmetric] k_def [symmetric] .
    have p': "p' = k mod S" unfolding p'_def k_def S_def by (rule phys_front [OF wf])
    have kS: "k \<le> S" using kb S0 by (simp split: if_splits) (meson mod_less_divisor le_trans less_imp_le)
    have kg: "k \<le> g \<or> g = 0" if "S \<le> 2 ^ 30"
    proof -
      have gS: "g \<le> S" by (intro I1 that spl) (use t0 S0 in simp)
      show ?thesis
      proof (cases "g = S")
        case True
        then show ?thesis using kS by simp
      next
        case False
        then have "g mod S = g" using gS by simp
        then show ?thesis using kb by (simp split: if_splits)
      qed
    qed
    show ?thesis
    proof (rule cursor_invI [OF W], unfold C G P D, fold t'_def)
      assume a: "S \<le> 2 ^ 30" "S < (if k \<le> g then g - k else 2 ^ 32 + g - k)"
        "(if k \<le> g then g - k else 2 ^ 32 + g - k) + S < 2 ^ 32"
      have gS: "g \<le> S" by (intro I1 a(1) spl) (use t0 S0 in simp)
      show "g \<le> S \<and> (t' \<noteq> 0 \<longrightarrow> g < S)"
        using a kg [OF a(1)] gS kS by (simp split: if_splits)
    next
      assume a: "S \<le> 2 ^ 30" "0 < (if k \<le> g then g - k else 2 ^ 32 + g - k)"
        "(if k \<le> g then g - k else 2 ^ 32 + g - k) \<le> S"
        "S < p' + (if k \<le> g then g - k else 2 ^ 32 + g - k)"
      have gS: "g \<le> S" by (intro I1 a(1) spl) (use t0 S0 in simp)
      have False
      proof (cases "k \<le> g")
        case True
        then have "k < S" using a(2) gS by simp
        then have "p' = k" using p' by simp
        then show False using a(4) True gS by simp
      next
        case False
        then show False using a(1,3) kS by simp
      qed
      then show "2 * S \<le> t' + p'" ..
    qed
  qed
qed

subsection \<open>Produce\<close>

lemma front_paths:
  assumes wf: "well_formed s" and w: "write_to_front s dd n = Inr (s', rc)"
  shows "unat n < cap s \<and>
         s' = s\<lparr>wrap_cursor := write_cursor s, data := memcpy (data s) 0 dd (unat n),
                 write_cursor := write_cursor s
                   + (size_rb s + (size_rb s - (write_cursor s AND mask_rb s)) + n)\<rparr>"
proof -
  note r = write_to_front_result [OF w]
  have "write_cursor s' AND mask_rb s = n" using r by (rule conjunct2 [THEN conjunct2])
  then have "phys s (write_cursor s') = unat n" by (simp only: phys_def)
  moreover have "phys s (write_cursor s') < cap s" by (rule phys_lt [OF wf])
  ultimately have "unat n < cap s" by simp
  then show ?thesis using r [THEN conjunct1] by (rule conjI)
qed

lemma produce_paths:
  assumes wf: "well_formed s" and prod: "ijcringbuffer_produce s dd n = Inr (s', rc)"
  shows "s' = s
       \<or> (ijcringbuffer__is_split s \<and> unat n < cap s \<and>
            (if read_cursor s = wrap_cursor s
             then n = 0 \<or> (phys s (write_cursor s) \<noteq> 0 \<and> unat n + phys s (write_cursor s) \<le> cap s)
             else phys s (write_cursor s) \<le> phys s (read_cursor s) \<and>
                  unat n \<le> phys s (read_cursor s - write_cursor s)) \<and>
            (\<exists>m. s' = s\<lparr>data := m, write_cursor := write_cursor s + n\<rparr>))
       \<or> (\<not> ijcringbuffer__is_split s \<and> unat n < cap s \<and>
            (lead s = 0 \<or> unat n \<le> phys s (read_cursor s)) \<and>
            (\<exists>m. s' = s\<lparr>wrap_cursor := write_cursor s, data := m,
                    write_cursor := write_cursor s
                      + (size_rb s + (size_rb s - (write_cursor s AND mask_rb s)) + n)\<rparr>))
       \<or> (\<not> ijcringbuffer__is_split s \<and> unat n + phys s (write_cursor s) \<le> cap s \<and>
            (phys s (write_cursor s) = 0 \<longrightarrow> lead s = 0) \<and>
            (\<exists>m. s' = s\<lparr>data := m, write_cursor := write_cursor s + n\<rparr>))"
proof (cases "ijcringbuffer__is_split s")
  case split: True
  have pw: "phys s (write_cursor s) < cap s" by (rule phys_lt [OF wf])
  have sub: "unat (size_rb s - (write_cursor s AND mask_rb s)) = cap s - phys s (write_cursor s)"
    by (rule unat_size_sub_mask [OF wf])
  show ?thesis
  proof (cases "read_cursor s = wrap_cursor s")
    case True
    have "s' = s \<or>
          (n \<le> (if write_cursor s AND mask_rb s \<noteq> 0
                 then size_rb s - (write_cursor s AND mask_rb s) else 0) \<and>
           (\<exists>m. s' = s\<lparr>data := m, write_cursor := write_cursor s + n\<rparr>))"
      using prod split True
      by (auto simp: ijcringbuffer_produce_def Let_def split: if_splits)
    then show ?thesis
    proof
      assume "s' = s" then show ?thesis by simp
    next
      assume a: "n \<le> (if write_cursor s AND mask_rb s \<noteq> 0
                 then size_rb s - (write_cursor s AND mask_rb s) else 0) \<and>
           (\<exists>m. s' = s\<lparr>data := m, write_cursor := write_cursor s + n\<rparr>)"
      have "n = 0 \<or> (phys s (write_cursor s) \<noteq> 0 \<and> unat n + phys s (write_cursor s) \<le> cap s)"
      proof (cases "write_cursor s AND mask_rb s = 0")
        case True
        then show ?thesis using a by simp
      next
        case False
        then have "unat n \<le> cap s - phys s (write_cursor s)"
          using a by (simp add: word_le_nat_alt sub)
        moreover have "phys s (write_cursor s) \<noteq> 0" using False by (simp add: phys_zero_iff)
        ultimately show ?thesis using pw by arith
      qed
      moreover from this have "unat n < cap s" using pw cap_pos [OF wf] by auto
      ultimately show ?thesis using split True a by simp
    qed
  next
    case False
    have ne: "wrap_cursor s \<noteq> read_cursor s" using False by simp
    have "s' = s \<or>
          (write_cursor s AND mask_rb s \<le> read_cursor s AND mask_rb s \<and>
           n \<le> (read_cursor s - write_cursor s) AND mask_rb s \<and>
           (\<exists>m. s' = s\<lparr>data := m, write_cursor := write_cursor s + n\<rparr>))"
      using prod split ne
      by (auto simp: ijcringbuffer_produce_def Let_def split: if_splits)
    then show ?thesis
    proof
      assume "s' = s" then show ?thesis by simp
    next
      assume a: "write_cursor s AND mask_rb s \<le> read_cursor s AND mask_rb s \<and>
           n \<le> (read_cursor s - write_cursor s) AND mask_rb s \<and>
           (\<exists>m. s' = s\<lparr>data := m, write_cursor := write_cursor s + n\<rparr>)"
      then have b: "phys s (write_cursor s) \<le> phys s (read_cursor s)"
        "unat n \<le> phys s (read_cursor s - write_cursor s)"
        by (simp_all add: word_le_nat_alt phys_def)
      have "phys s (read_cursor s - write_cursor s) < cap s" by (rule phys_lt [OF wf])
      with b(2) have "unat n < cap s" by (rule le_less_trans)
      then show ?thesis using split False a b by simp
    qed
  qed
next
  case ns: False
  have pw: "phys s (write_cursor s) < cap s" by (rule phys_lt [OF wf])
  have sub: "unat (size_rb s - (write_cursor s AND mask_rb s)) = cap s - phys s (write_cursor s)"
    by (rule unat_size_sub_mask [OF wf])
  note pe = produce_not_split [OF ns, of dd n]
  have front: ?thesis if w: "write_to_front s dd n = Inr (s', rc)"
    and side: "lead s = 0 \<or> unat n \<le> phys s (read_cursor s)"
    using front_paths [OF wf w] side ns by blast
  have check: ?thesis if c: "check_front s dd n = Inr (s', rc)"
  proof (cases "n \<le> read_cursor s AND mask_rb s")
    case True
    then have "write_to_front s dd n = Inr (s', rc)" using c by (simp add: check_front_def)
    moreover have "unat n \<le> phys s (read_cursor s)"
      using True by (simp add: word_le_nat_alt phys_def)
    ultimately show ?thesis using front by blast
  next
    case False
    then have "s' = s" using c by (simp add: check_front_def)
    then show ?thesis by simp
  qed
  show ?thesis
  proof (cases "write_cursor s AND mask_rb s \<noteq> 0 \<and> write_cursor s = read_cursor s \<and> n \<le> size_rb s")
    case True
    have "write_to_front s dd n = Inr (s', rc)" using prod unfolding pe if_P [OF True] .
    moreover have "lead s = 0" using True by (simp add: lead_zero_iff)
    ultimately show ?thesis using front by blast
  next
    case c1: False
    show ?thesis
    proof (cases "write_cursor s AND mask_rb s = 0 \<and> write_cursor s \<noteq> read_cursor s")
      case True
      have "check_front s dd n = Inr (s', rc)"
        using prod unfolding pe if_not_P [OF c1] if_P [OF True] .
      then show ?thesis by (rule check)
    next
      case c2: False
      show ?thesis
      proof (cases "n \<le> size_rb s - (write_cursor s AND mask_rb s)")
        case True
        have s': "s' = s\<lparr>data := memcpy (data s) (unat (write_cursor s AND mask_rb s)) dd (unat n),
                     write_cursor := write_cursor s + n\<rparr>"
          using prod unfolding pe if_not_P [OF c1] if_not_P [OF c2] if_P [OF True] by simp
        have "unat n \<le> cap s - phys s (write_cursor s)"
          using True by (simp add: word_le_nat_alt sub)
        then have "unat n + phys s (write_cursor s) \<le> cap s" using pw by simp
        moreover have "phys s (write_cursor s) = 0 \<longrightarrow> lead s = 0"
          using c2 by (simp add: phys_zero_iff lead_zero_iff)
        ultimately show ?thesis using ns s' by blast
      next
        case False
        have "check_front s dd n = Inr (s', rc)"
          using prod unfolding pe if_not_P [OF c1] if_not_P [OF c2] if_not_P [OF False] .
        then show ?thesis by (rule check)
      qed
    qed
  qed
qed

lemma lead_written:
  "lead (s\<lparr>data := b, write_cursor := write_cursor s + n\<rparr>) = (lead s + unat n) mod 2 ^ 32"
proof -
  have "write_cursor s + n - read_cursor s = (write_cursor s - read_cursor s) + n" by simp
  then have "unat (write_cursor s + n - read_cursor s) = (lead s + unat n) mod 2 ^ 32"
    by (simp only: unat_word_ariths(1) lead_def) simp
  then show ?thesis by (simp add: lead_def)
qed

lemma lead_inflated:
  "lead (s\<lparr>wrap_cursor := a, data := b, write_cursor := c\<rparr>) = unat (c - read_cursor s)"
  "well_formed (s\<lparr>wrap_cursor := a, data := b, write_cursor := c\<rparr>) = well_formed s"
  by (simp_all add: lead_def well_formed_def)

lemma produce_cursor_inv:
  assumes inv: "cursor_inv s" and prod: "ijcringbuffer_produce s dd n = Inr (s', rc)"
  shows "cursor_inv s'"
proof -
  note wf = cursor_invD(1) [OF inv]
  define S where "S = cap s"
  define rm where "rm = phys s (read_cursor s)"
  define wm where "wm = phys s (write_cursor s)"
  define d where "d = lead s"
  define t where "t = tail_len s"
  define g where "g = front_len s"
  define k where "k = unat n"
  have S0: "0 < S" unfolding S_def by (rule cap_pos [OF wf])
  have rmS: "rm < S" unfolding rm_def S_def by (rule phys_lt [OF wf])
  have wmS: "wm < S" unfolding wm_def S_def by (rule phys_lt [OF wf])
  have dvd: "S dvd 2 ^ 32" unfolding S_def by (rule cap_dvd [OF wf])
  have dN: "d < 2 ^ 32" unfolding d_def by (rule lead_lt)
  have wm_d: "wm = (rm + d) mod S" unfolding wm_def rm_def d_def S_def by (rule phys_lead [OF wf])
  have wm_g: "wm = g mod S" unfolding wm_def g_def S_def by (rule phys_write_split [OF wf])
  note I1 = cursor_invD(2) [OF inv, folded S_def d_def t_def g_def]
  note I1' = cursor_invD(3) [OF inv, folded S_def d_def t_def g_def]
  note I2 = cursor_invD(4) [OF inv, folded S_def d_def t_def g_def rm_def]
  note sp = is_split_lead [of s, folded S_def d_def]
  from produce_paths [OF wf prod] consider
    (same) "s' = s"
  | (split_write) m where "ijcringbuffer__is_split s" "unat n < cap s"
      "if read_cursor s = wrap_cursor s
       then n = 0 \<or> (phys s (write_cursor s) \<noteq> 0 \<and> unat n + phys s (write_cursor s) \<le> cap s)
       else phys s (write_cursor s) \<le> phys s (read_cursor s) \<and>
            unat n \<le> phys s (read_cursor s - write_cursor s)"
      "s' = s\<lparr>data := m, write_cursor := write_cursor s + n\<rparr>"
  | (front) m where "\<not> ijcringbuffer__is_split s" "unat n < cap s"
      "lead s = 0 \<or> unat n \<le> phys s (read_cursor s)"
      "s' = s\<lparr>wrap_cursor := write_cursor s, data := m,
              write_cursor := write_cursor s
                + (size_rb s + (size_rb s - (write_cursor s AND mask_rb s)) + n)\<rparr>"
  | (atend) m where "\<not> ijcringbuffer__is_split s" "unat n + phys s (write_cursor s) \<le> cap s"
      "phys s (write_cursor s) = 0 \<longrightarrow> lead s = 0"
      "s' = s\<lparr>data := m, write_cursor := write_cursor s + n\<rparr>"
    by (elim disjE conjE exE) blast+
  then show ?thesis
  proof cases
    case same
    then show ?thesis using inv by simp
  next
    case split_write
    define g' where "g' = front_len s'"
    have W: "well_formed s'" and C: "cap s' = S" and T: "tail_len s' = t"
      and P: "phys s' (read_cursor s') = rm"
      by (simp_all add: split_write(4) write_update_facts wf S_def t_def rm_def)
    have spl: "S < d" "d + S < 2 ^ 32" using split_write(1) sp by simp_all
    have kS: "k < S" using split_write(2) by (simp add: k_def S_def)
    have "lead s' = (d + k) mod 2 ^ 32"
      unfolding split_write(4) lead_written d_def k_def ..
    then have D: "lead s' = d + k" using spl kS by simp
    have G: "g' = g + k" if "g + k \<le> S"
      unfolding g'_def split_write(4) g_def k_def
      by (rule front_len_write_add) (use that in \<open>simp add: g_def k_def S_def\<close>)
    show ?thesis
    proof (rule cursor_invI [OF W], unfold C P T D, fold g'_def)
      assume a: "S \<le> 2 ^ 30" "t < S"
      have gS: "g \<le> S" by (intro I1 a spl)
      show "g' \<le> S \<and> (t \<noteq> 0 \<longrightarrow> g' < S)"
      proof (cases "read_cursor s = wrap_cursor s")
        case True
        then have t0: "t = 0" by (simp add: t_def tail_len_def)
        have c: "k = 0 \<or> (wm \<noteq> 0 \<and> k + wm \<le> S)"
          using split_write(3) True by (simp add: k_def wm_def S_def unat_eq_zero)
        have "g + k \<le> S"
        proof (cases "k = 0")
          case True
          then show ?thesis using gS by simp
        next
          case False
          then have w: "wm \<noteq> 0" "k + wm \<le> S" using c by simp_all
          have "g \<noteq> S" using w(1) wm_g by auto
          then have "g mod S = g" using gS by simp
          then show ?thesis using w(2) wm_g by simp
        qed
        then show ?thesis using G t0 by simp
      next
        case False
        then have t0: "t \<noteq> 0" by (simp add: t_def tail_len_zero_iff)
        have g: "g < S" by (intro I1' a spl t0)
        then have wg: "wm = g" using wm_g by simp
        have c: "wm \<le> rm" "k \<le> phys s (read_cursor s - write_cursor s)"
          using split_write(3) False by (simp_all add: k_def wm_def rm_def)
        have "phys s (read_cursor s - write_cursor s) = rm - wm"
          unfolding rm_def wm_def by (rule phys_diff [OF wf]) (use c(1) in \<open>simp add: rm_def wm_def\<close>)
        then have "g + k \<le> rm" using c wg by simp
        then show ?thesis using G rmS by simp
      qed
    next
      assume "d + k \<le> S"
      then show "2 * S \<le> t + rm" using spl by simp
    qed
  next
    case front
    have W: "well_formed s'" and C: "cap s' = S" and T: "tail_len s' = d"
      and P: "phys s' (read_cursor s') = rm"
      by (simp_all add: front(4) front_update_facts lead_inflated wf S_def d_def rm_def lead_def)
    have G: "front_len s' = k" unfolding front(4) k_def by (rule front_len_inflated)
    have kS: "k < S" using front(2) by (simp add: k_def S_def)
    have ns: "d \<le> S \<or> 2 ^ 32 \<le> d + S" using front(1) sp by auto
    define d' where "d' = lead s'"
    have D: "d' = d + 2 * S - wm + k" if "S \<le> 2 ^ 30" "d \<le> S"
    proof -
      have "unat (write_cursor s + (size_rb s + (size_rb s - (write_cursor s AND mask_rb s)) + n)
               - read_cursor s)
         = unat (write_cursor s - read_cursor s) + 2 * cap s - phys s (write_cursor s) + unat n"
        by (rule front_distance [OF wf]) (use that front(2) in \<open>simp_all add: S_def d_def lead_def\<close>)
      then show ?thesis
        unfolding d'_def front(4) lead_inflated by (simp add: S_def d_def lead_def wm_def k_def)
    qed
    show ?thesis
    proof (rule cursor_invI [OF W], unfold C P T G, fold d'_def)
      show "k \<le> S \<and> (d \<noteq> 0 \<longrightarrow> k < S)" using kS by simp
    next
      assume a: "S \<le> 2 ^ 30" "d' \<le> S"
      show "2 * S \<le> d + rm"
      proof (cases "d \<le> S")
        case True
        then show ?thesis using D [OF a(1) True] a(2) wmS by simp
      next
        case False
        then show ?thesis using ns a(1) by simp
      qed
    qed
  next
    case atend
    define g' where "g' = front_len s'"
    have W: "well_formed s'" and C: "cap s' = S" and T: "tail_len s' = t"
      and P: "phys s' (read_cursor s') = rm"
      by (simp_all add: atend(4) write_update_facts wf S_def t_def rm_def)
    have ns: "d \<le> S \<or> 2 ^ 32 \<le> d + S" using atend(1) sp by auto
    have kw: "k + wm \<le> S" using atend(2) by (simp add: k_def wm_def S_def)
    have w0: "wm = 0 \<longrightarrow> d = 0" using atend(3) by (simp add: wm_def d_def)
    have "lead s' = (d + k) mod 2 ^ 32"
      unfolding atend(4) lead_written d_def k_def ..
    moreover have "d + k < 2 * 2 ^ 32" using dN kw S_def cap_lt [of s] by simp
    ultimately have D: "lead s' = (if d + k < 2 ^ 32 then d + k else d + k - 2 ^ 32)"
      by (simp only: mod_two)
    have low: "d + k \<le> S - rm \<or> 2 * S \<le> t + rm" if "S \<le> 2 ^ 30" "d \<le> S"
    proof (cases "d = 0")
      case True
      then have "wm = rm" using wm_d rmS by simp
      then show ?thesis using kw True by arith
    next
      case False
      then have w: "wm \<noteq> 0" using w0 by simp
      have lt: "rm + d < 2 * S" using rmS that(2) by simp
      have m: "wm = (if rm + d < S then rm + d else rm + d - S)"
        unfolding wm_d by (rule mod_two [OF lt])
      show ?thesis
      proof (cases "S < rm + d")
        case True
        have "2 * S \<le> t + rm" by (rule I2) (use that True False in simp_all)
        then show ?thesis ..
      next
        case False
        then have "rm + d < S" using m w by (simp split: if_splits)
        then show ?thesis using m kw by (simp; arith)
      qed
    qed
    have high: "d + k < 2 ^ 32 \<or> rm + (d + k - 2 ^ 32) \<le> S" if "2 ^ 32 \<le> d + S"
    proof -
      define e where "e = d + S - 2 ^ 32"
      have eS: "e < S" using dN S0 by (simp add: e_def)
      have "(rm + d) mod S = (rm + (d + S - 2 ^ 32)) mod S"
        by (rule mod_top [OF dvd S0 that])
      moreover have "rm + e < 2 * S" using rmS eS by simp
      ultimately have m: "wm = (if rm + e < S then rm + e else rm + e - S)"
        unfolding wm_d e_def [symmetric] by (simp only: mod_two)
      show ?thesis using m kw that eS rmS by (simp add: e_def split: if_splits; arith)
    qed
    show ?thesis
    proof (rule cursor_invI [OF W], unfold C P T D, fold g'_def)
      assume a: "S \<le> 2 ^ 30" "S < (if d + k < 2 ^ 32 then d + k else d + k - 2 ^ 32)"
        "(if d + k < 2 ^ 32 then d + k else d + k - 2 ^ 32) + S < 2 ^ 32" "t < S"
      have False
      proof (cases "d \<le> S")
        case True
        then show False using low [OF a(1) True] a rmS by (simp split: if_splits; arith)
      next
        case False
        then have "2 ^ 32 \<le> d + S" using ns by simp
        then show False using high a rmS by (simp split: if_splits; arith)
      qed
      then show "g' \<le> S \<and> (t \<noteq> 0 \<longrightarrow> g' < S)" ..
    next
      assume a: "S \<le> 2 ^ 30" "0 < (if d + k < 2 ^ 32 then d + k else d + k - 2 ^ 32)"
        "(if d + k < 2 ^ 32 then d + k else d + k - 2 ^ 32) \<le> S"
        "S < rm + (if d + k < 2 ^ 32 then d + k else d + k - 2 ^ 32)"
      show "2 * S \<le> t + rm"
      proof (cases "d \<le> S")
        case True
        then show ?thesis using low [OF a(1) True] a rmS by (simp split: if_splits; arith)
      next
        case False
        then have "2 ^ 32 \<le> d + S" using ns by simp
        then show ?thesis using high a rmS by (simp split: if_splits; arith)
      qed
    qed
  qed
qed

subsection \<open>Induction over the calls\<close>

lemma reach_cursor_inv: "reach P s \<Longrightarrow> cursor_inv s"
proof (induction rule: reach.induct)
  case (reach_init d n s)
  have "well_formed s" using reach_init by (rule init_well_formed)
  moreover have "write_cursor s = read_cursor s"
    using reach_init by (auto simp: ijcringbuffer_init_def split: if_splits)
  ultimately show ?case by (rule empty_cursor_inv)
next
  case (reach_reset s)
  have "well_formed (ijcringbuffer_reset s)"
    using cursor_invD(1) [OF reach_reset.IH] by (simp add: well_formed_def ijcringbuffer_reset_def)
  moreover have "write_cursor (ijcringbuffer_reset s) = read_cursor (ijcringbuffer_reset s)"
    by (simp add: ijcringbuffer_reset_def)
  ultimately show ?case by (rule empty_cursor_inv)
next
  case (reach_produce s n d s' rc)
  show ?case by (rule produce_cursor_inv [OF reach_produce.IH reach_produce.hyps(3)])
next
  case (reach_consume s n s')
  show ?case by (rule consume_cursor_inv [OF reach_consume.IH reach_consume.hyps(2)])
qed

lemma collapse_unsplit:
  assumes inv: "cursor_inv s" and split: "ijcringbuffer__is_split s"
    and eq: "read_cursor s = wrap_cursor s"
    and c: "ijcringbuffer_consume s n = Inr s'"
  shows "\<not> ijcringbuffer__is_split s'"
proof -
  note wf = cursor_invD(1) [OF inv]
  define S where "S = cap s"
  define g where "g = front_len s"
  define k where "k = unat n"
  have S0: "0 < S" unfolding S_def by (rule cap_pos [OF wf])
  have cap: "cap s \<le> 2 ^ 30" by (rule split_cap [OF wf split])
  have t0: "tail_len s = 0" using eq by (simp add: tail_len_def)
  have gS: "g \<le> S"
    unfolding g_def S_def
    by (rule cursor_invD(2) [OF inv cap]) (use split t0 S0 in \<open>simp_all add: is_split_lead S_def\<close>)
  have p: "unat n \<le> (if phys s (write_cursor s) = 0 then cap s else phys s (write_cursor s))"
    and s': "s' = s\<lparr>read_cursor := read_cursor s
                 + (size_rb s + (size_rb s - (read_cursor s AND mask_rb s)) + n)\<rparr>"
    using consume_paths [OF wf c] split t0 by blast+
  have wm: "phys s (write_cursor s) = g mod S"
    unfolding g_def S_def by (rule phys_write_split [OF wf])
  have kb: "k \<le> (if g mod S = 0 then S else g mod S)"
    using p unfolding wm S_def [symmetric] k_def [symmetric] .
  have "g mod S < S" using S0 by (rule mod_less_divisor)
  then have kS: "k \<le> S" using kb by (simp split: if_splits)
  have kg: "k \<le> g \<or> g = 0"
  proof (cases "g = S")
    case True
    then show ?thesis using kS by simp
  next
    case False
    then have "g mod S = g" using gS by simp
    then show ?thesis using kb by (simp split: if_splits)
  qed
  have D: "lead s' = (if k \<le> g then g - k else 2 ^ 32 + g - k)"
    by (simp only: s' read_update lead_collapsed [OF eq] g_def k_def)
  have "lead s' \<le> S \<or> 2 ^ 32 \<le> lead s' + S"
    using kg gS kS unfolding D by (simp split: if_splits; arith)
  moreover have "cap s' = S" by (simp add: s' read_update S_def)
  ultimately show ?thesis by (simp add: is_split_lead; arith)
qed

section \<open>C1: produce is all or nothing\<close>

text \<open>
  C1. Every call \<^verbatim>\<open>produce(data, n)\<close> in a reachable state should either return 1, having
  copied the \<open>n\<close> bytes to one contiguous region and advanced \<open>write_cursor\<close>, or return 0
  and leave the whole state as it was. With capacity 8, after \<^verbatim>\<open>produce(hex, 4); consume(4)\<close>
  the call \<^verbatim>\<open>produce(hex, 8)\<close> does neither: the guard \<^verbatim>\<open>size >= insize\<close> of the auto-reset lets
  it through to \<^verbatim>\<open>write_to_front\<close>, which sets \<open>wrap_cursor\<close>, copies the bytes, moves
  \<open>write_cursor\<close> to 24 and then fails its own assertion \<^verbatim>\<open>(write_cursor & mask) == insize\<close>,
  since \<open>24 AND 7 = 0\<close>.
\<close>

theorem produce_aborts_at_drained8:
  "run_init zero_bytes 8 [Produce hex 4, Consume 4] = Inr drained8 \<and>
   ijcringbuffer_produce drained8 hex 8 = Inl AssertionFailed"
  by (simp add: run_drained8) (simp add: call_defs drained8_def)

text \<open>
  The defect behind C1 and C6 in general: in every reachable state in which the buffer is
  empty and the physical offset of \<open>write_cursor\<close> is not 0, a \<^verbatim>\<open>produce\<close> of exactly \<open>size\<close>
  bytes passes the guard of the auto-reset and ends in the assertion of \<^verbatim>\<open>write_to_front\<close>.
\<close>

theorem produce_full_size_auto_reset:
  assumes "reachable s" and "ijcringbuffer_is_empty s" and "write_cursor s AND mask_rb s \<noteq> 0"
  shows "ijcringbuffer_produce s d (size_rb s) = Inl AssertionFailed"
proof -
  have wf: "well_formed s" using assms(1) by (simp add: reachable_def reach_well_formed)
  have rw: "write_cursor s = read_cursor s" using assms(2) by (simp add: ijcringbuffer_is_empty_def)
  have ns: "\<not> ijcringbuffer__is_split s" by (simp add: is_split_iff rw)
  have c: "write_cursor s AND mask_rb s \<noteq> 0 \<and> write_cursor s = read_cursor s
             \<and> size_rb s \<le> size_rb s"
    using assms(3) rw by simp
  have "ijcringbuffer_produce s d (size_rb s) = write_to_front s d (size_rb s)"
    by (simp only: produce_not_split [OF ns] if_P [OF c])
  then show ?thesis using write_to_front_full [OF wf refl] by simp
qed

text \<open>
  Outside the defect shown for C1, \<^verbatim>\<open>produce\<close> is all or nothing: in every state reached
  with a capacity of at most \<open>2 ^ 29\<close> and without a zero-length \<^verbatim>\<open>produce\<close>, and for every
  length other than the capacity itself on an empty buffer whose write offset is not 0, the
  call either returns 1, having copied the \<open>n\<close> bytes to one region that lies inside the
  storage and advanced \<open>write_cursor\<close>, or returns 0 with the state as it was.
\<close>

theorem produce_all_or_nothing_design:
  assumes reach: "reachable_nonzero s" and size: "size_rb s \<le> 2 ^ 29"
    and nd: "\<not> (ijcringbuffer_is_empty s \<and> write_cursor s AND mask_rb s \<noteq> 0 \<and> n = size_rb s)"
  shows "(\<exists>off. off + unat n \<le> unat (size_rb s) \<and>
            (ijcringbuffer_produce s d n =
               Inr (s\<lparr>data := memcpy (data s) off d (unat n),
                       write_cursor := write_cursor s + n\<rparr>, 1)
             \<or> ijcringbuffer_produce s d n =
               Inr (s\<lparr>wrap_cursor := write_cursor s, data := memcpy (data s) off d (unat n),
                       write_cursor := write_cursor s
                         + (size_rb s + (size_rb s - (write_cursor s AND mask_rb s)) + n)\<rparr>, 1)))
         \<or> ijcringbuffer_produce s d n = Inr (s, 0)"
proof -
  note inv = design_reachable [OF reach size]
  note wf = design_invD(1) [OF inv]
  have pr: "phys s (read_cursor s) < cap s" by (rule phys_lt [OF wf])
  show ?thesis
  proof (cases "split_inv s")
    case True
    show ?thesis
    proof (cases "read_cursor s = wrap_cursor s")
      case eq: True
      show ?thesis
        using produce_split_drained(1) [OF inv True eq, of d n]
          produce_split_drained(3) [OF inv True eq, of n]
        by (cases "unat n \<le> cap s - front_len s") (auto simp: cap_def)
    next
      case ne: False
      show ?thesis
        using produce_split_tail(1) [OF inv True ne, of d n]
          produce_split_tail(3) [OF inv True ne, of n]
        by (cases "unat n \<le> phys s (read_cursor s) - front_len s") (auto simp: cap_def)
    qed
  next
    case False
    then have un: "unsplit_inv s" using design_invD(3) [OF inv] by simp
    then have ns: "\<not> ijcringbuffer__is_split s" by (rule unsplit_not_split)
    note pe = produce_not_split [OF ns, of d n]
    have front: "\<exists>off. off + unat n \<le> unat (size_rb s) \<and>
        write_to_front s d n =
               Inr (s\<lparr>wrap_cursor := write_cursor s, data := memcpy (data s) off d (unat n),
                       write_cursor := write_cursor s
                         + (size_rb s + (size_rb s - (write_cursor s AND mask_rb s)) + n)\<rparr>, 1)"
      if "unat n < cap s"
      using write_to_front_ok [OF wf that, of d] that by (intro exI [of _ 0]) (simp add: cap_def)
    have chk: "(\<exists>off. off + unat n \<le> unat (size_rb s) \<and>
        check_front s d n =
               Inr (s\<lparr>wrap_cursor := write_cursor s, data := memcpy (data s) off d (unat n),
                       write_cursor := write_cursor s
                         + (size_rb s + (size_rb s - (write_cursor s AND mask_rb s)) + n)\<rparr>, 1))
        \<or> check_front s d n = Inr (s, 0)"
    proof (cases "n \<le> read_cursor s AND mask_rb s")
      case True
      then have "unat n < cap s" using pr by (simp add: word_le_nat_alt phys_def)
      then show ?thesis using front True by (simp add: check_front_def)
    next
      case False
      then show ?thesis by (simp add: check_front_def)
    qed
    show ?thesis
    proof (cases "write_cursor s AND mask_rb s \<noteq> 0 \<and> write_cursor s = read_cursor s
                    \<and> n \<le> size_rb s")
      case True
      then have "unat n < cap s"
        using nd by (simp add: ijcringbuffer_is_empty_def word_le_nat_alt cap_def word_unat_eq_iff)
      then show ?thesis using front by (simp only: pe if_P [OF True]) blast
    next
      case c1: False
      show ?thesis
      proof (cases "write_cursor s AND mask_rb s = 0 \<and> write_cursor s \<noteq> read_cursor s")
        case True
        show ?thesis using chk by (simp only: pe if_not_P [OF c1] if_P [OF True]) blast
      next
        case c2: False
        show ?thesis
        proof (cases "n \<le> size_rb s - (write_cursor s AND mask_rb s)")
          case True
          have "unat (write_cursor s AND mask_rb s) + unat n \<le> unat (size_rb s)"
            using back_unsplit_inv(2) [OF inv un c1 c2 True] by (simp add: cap_def)
          then show ?thesis
            by (simp only: pe if_not_P [OF c1] if_not_P [OF c2] if_P [OF True]) blast
        next
          case False
          show ?thesis
            using chk by (simp only: pe if_not_P [OF c1] if_not_P [OF c2] if_not_P [OF False]) blast
        qed
      qed
    qed
  qed
qed

section \<open>C2: the size never exceeds the capacity\<close>

text \<open>
  C2. Along every sequence of calls whose \<^verbatim>\<open>consume\<close> calls respect the precondition, the
  value of \<^verbatim>\<open>consumeable_size\<close> should stay at or below the capacity, and \<^verbatim>\<open>is_full\<close> should hold
  exactly when it equals the capacity. With capacity 8, after
  \<^verbatim>\<open>produce(hex, 3); consume(3); produce(hex, 0); consume(8)\<close>, where each \<^verbatim>\<open>consume\<close> passes its
  assertion, the value computed by \<^verbatim>\<open>consumeable_size\<close> is 4294967288; the function and
  \<^verbatim>\<open>is_full\<close> end in the assertion \<^verbatim>\<open>size >= cs\<close>.
\<close>

theorem consumeable_size_at_overdrawn8:
  "run_init zero_bytes 8 [Produce hex 3, Consume 3, Produce hex 0, Consume 8] = Inr overdrawn8 \<and>
   consumeable_size_cs overdrawn8 False = 4294967288 \<and> size_rb overdrawn8 = 8 \<and>
   ijcringbuffer_consumeable_size overdrawn8 = Inl AssertionFailed \<and>
   ijcringbuffer_is_full overdrawn8 = Inl AssertionFailed"
  by (simp add: run_overdrawn8) (simp add: call_defs overdrawn8_def)

text \<open>
  The defect behind C2, C4, C9 and C10 in general: a zero-length \<^verbatim>\<open>produce\<close> that takes the
  write-to-front path splits the buffer around an empty front run, and the size functions
  read the physical write offset 0 of an empty front run as a front run that fills the whole
  storage. In every reachable state with a capacity of at most \<open>2 ^ 30\<close> in which the buffer is
  empty and the physical offset of \<open>write_cursor\<close> is not 0, \<^verbatim>\<open>produce(data, 0)\<close> returns 1, and
  afterwards the buffer, which holds no byte, is not empty, reports \<open>size\<close> consumable bytes
  and is full.
\<close>

theorem produce_zero_on_empty:
  assumes reach: "reachable s" and size: "size_rb s \<le> 2 ^ 30"
    and empty: "ijcringbuffer_is_empty s" and off: "write_cursor s AND mask_rb s \<noteq> 0"
  shows "\<exists>s'. ijcringbuffer_produce s d 0 = Inr (s', 1) \<and> \<not> ijcringbuffer_is_empty s' \<and>
              ijcringbuffer_consumeable_size_continuous s' = Inr (size_rb s') \<and>
              ijcringbuffer_consumeable_size s' = Inr (size_rb s') \<and>
              ijcringbuffer_is_full s' = Inr True"
proof -
  have wf: "well_formed s" using reach by (simp add: reachable_def reach_well_formed)
  have cap: "cap s \<le> 2 ^ 30" using size by (simp only: cap_le_iff)
  have rw: "write_cursor s = read_cursor s" using empty by (simp add: ijcringbuffer_is_empty_def)
  have ns: "\<not> ijcringbuffer__is_split s" by (simp add: is_split_iff rw)
  have p: "phys s (write_cursor s) < cap s" by (rule phys_lt [OF wf])
  have pw: "0 < phys s (write_cursor s)" using off by (simp add: phys_def unat_gt_0)
  define w' where "w' = write_cursor s
      + (size_rb s + (size_rb s - (write_cursor s AND mask_rb s)) + 0)"
  define s' where "s' = s\<lparr>wrap_cursor := write_cursor s, data := memcpy (data s) 0 d (unat (0::u32)),
      write_cursor := w'\<rparr>"
  have c: "write_cursor s AND mask_rb s \<noteq> 0 \<and> write_cursor s = read_cursor s \<and> 0 \<le> size_rb s"
    using off rw by simp
  have "ijcringbuffer_produce s d 0 = write_to_front s d 0"
    by (simp only: produce_not_split [OF ns] if_P [OF c])
  also have "\<dots> = Inr (s', 1)"
    unfolding s'_def w'_def by (rule write_to_front_ok [OF wf]) (use cap_pos [OF wf] in simp)
  finally have prod: "ijcringbuffer_produce s d 0 = Inr (s', 1)" .
  have "unat (w' - read_cursor s)
      = unat (write_cursor s - read_cursor s) + 2 * cap s - phys s (write_cursor s) + unat (0::u32)"
    unfolding w'_def by (rule front_distance [OF wf cap]) (use cap_pos [OF wf] in \<open>simp_all add: rw\<close>)
  then have D: "unat (w' - read_cursor s) = 2 * cap s - phys s (write_cursor s)"
    by (simp add: rw)
  have split: "ijcringbuffer__is_split s'"
    unfolding is_split_iff using D p pw cap by (simp add: s'_def cap_def; arith)
  have ne: "\<not> ijcringbuffer_is_empty s'"
  proof
    assume "ijcringbuffer_is_empty s'"
    then have "w' - read_cursor s = 0" by (simp add: ijcringbuffer_is_empty_def s'_def)
    then show False using D p by simp
  qed
  have "phys s w' = unat (0::u32) mod cap s" unfolding w'_def by (rule phys_front [OF wf])
  then have m: "w' AND mask_rb s = 0" by (simp add: phys_def unat_eq_zero)
  have cs: "ijcringbuffer__consumeable_size s' c = Inr (size_rb s')" for c
    using split m
    by (simp add: ijcringbuffer__consumeable_size_def consumeable_size_cs_def s'_def rw)
  show ?thesis
    using prod ne cs
    by (auto simp: ijcringbuffer_consumeable_size_continuous_def ijcringbuffer_consumeable_size_def
        ijcringbuffer_is_full_def)
qed

text \<open>
  Outside the defect shown for C2, the size never exceeds the capacity, and \<^verbatim>\<open>is_full\<close>
  compares it with the capacity.
\<close>

theorem consumeable_size_bounded_design:
  assumes "reachable_nonzero s" and "size_rb s \<le> 2 ^ 29"
  shows "\<exists>v. ijcringbuffer_consumeable_size s = Inr v \<and> v \<le> size_rb s
             \<and> ijcringbuffer_is_full s = Inr (v = size_rb s)"
proof -
  note inv = design_reachable [OF assms]
  have r: "ijcringbuffer__consumeable_size s False = Inr (consumeable_size_cs s False)"
    by (rule cs_design [OF inv])
  then have "consumeable_size_cs s False \<le> size_rb s" using cs_returns_cs by blast
  then show ?thesis
    using r by (simp add: ijcringbuffer_consumeable_size_def ijcringbuffer_is_full_def)
qed

section \<open>C3: peek after produce\<close>

text \<open>
  C3, amended. For a capacity of at most \<open>2 ^ 30\<close>: when the buffer is empty and
  \<^verbatim>\<open>produce(data, n)\<close> returns 1, the \<open>n\<close> bytes at the pointer that \<^verbatim>\<open>ijcringbuffer_peek\<close> returns
  right after are the bytes written, one by one.
\<close>

theorem peek_after_produce_on_empty:
  assumes reach: "reachable s" and size: "size_rb s \<le> 2 ^ 30"
    and empty: "ijcringbuffer_is_empty s"
    and prod: "ijcringbuffer_produce s d n = Inr (s', 1)"
    and i: "i < unat n"
  shows "data s' (unat (ijcringbuffer_peek s') + i) = d i"
proof -
  have wf: "well_formed s" using reach by (simp add: reachable_def reach_well_formed)
  have cap: "cap s \<le> 2 ^ 30" using size by (simp only: cap_le_iff)
  have rw: "write_cursor s = read_cursor s" using empty by (simp add: ijcringbuffer_is_empty_def)
  have nsplit: "\<not> ijcringbuffer__is_split s" by (simp add: is_split_iff rw)
  have p: "phys s (write_cursor s) < cap s" by (rule phys_lt [OF wf])
  have m: "unat (size_rb s - (write_cursor s AND mask_rb s)) = cap s - phys s (write_cursor s)"
    by (rule unat_size_sub_mask [OF wf])
  show ?thesis
  proof (cases "write_cursor s AND mask_rb s \<noteq> 0 \<and> size_rb s \<ge> n")
    case True
    then have "write_to_front s d n = Inr (s', 1)"
      using prod nsplit empty by (simp add: ijcringbuffer_produce_def Let_def)
    note res = write_to_front_result [OF this]
    note s' = res [THEN conjunct1]
    note post = res [THEN conjunct2, THEN conjunct2]
    have n: "unat n < cap s"
      using phys_lt [OF wf, of "write_cursor s'"] post by (simp add: phys_def)
    have pw: "0 < phys s (write_cursor s)"
      using True by (simp add: phys_def unat_gt_0)
    have "unat (write_cursor s' - read_cursor s')
        = unat (write_cursor s - read_cursor s) + 2 * cap s - phys s (write_cursor s) + unat n"
      using front_distance [OF wf cap _ n] by (simp add: s' rw)
    then have D: "unat (write_cursor s' - read_cursor s') = 2 * cap s - phys s (write_cursor s) + unat n"
      by (simp add: rw)
    have "ijcringbuffer__is_split s'"
      unfolding is_split_iff D using p pw n cap by (simp add: s' cap_def; arith)
    then have "ijcringbuffer_peek s' = 0"
      by (simp add: ijcringbuffer_peek_def s' rw)
    then show ?thesis using i memcpy_read [of i "unat n" "data s" 0 d] by (simp add: s')
  next
    case False
    show ?thesis
    proof (cases "size_rb s - (write_cursor s AND mask_rb s) \<ge> n")
      case True
      then have s': "s' = s\<lparr>data := memcpy (data s) (unat (write_cursor s AND mask_rb s)) d (unat n),
                        write_cursor := write_cursor s + n\<rparr>"
        using prod nsplit empty False by (simp add: ijcringbuffer_produce_def Let_def)
      have n: "unat n \<le> cap s" using True m by (simp add: word_le_nat_alt)
      have "write_cursor s' - read_cursor s' = n" by (simp add: s' rw)
      then have "\<not> ijcringbuffer__is_split s'"
        using n by (simp add: is_split_iff s' cap_def)
      then have "ijcringbuffer_peek s' = write_cursor s AND mask_rb s"
        by (simp add: ijcringbuffer_peek_def s' rw)
      then show ?thesis using i by (simp add: s' memcpy_read)
    next
      case noback: False
      have "check_front s d n = Inr (s', 1)"
        using prod nsplit empty False noback by (simp add: ijcringbuffer_produce_def Let_def)
      then have front: "read_cursor s AND mask_rb s \<ge> n"
        by (auto simp: check_front_def split: if_splits)
      then have np: "unat n \<le> phys s (write_cursor s)"
        by (simp add: word_le_nat_alt phys_def rw)
      have "\<not> unat n \<le> cap s - phys s (write_cursor s)"
        using noback m by (simp add: word_le_nat_alt)
      moreover have "write_cursor s AND mask_rb s = 0 \<or> \<not> unat n \<le> cap s"
        using False by (auto simp: word_le_nat_alt cap_def)
      ultimately have False using np p by (auto simp: phys_def)
      then show ?thesis ..
    qed
  qed
qed

theorem peek_after_produce_on_empty_witness:
  "reachable drained8 \<and> size_rb drained8 \<le> 2 ^ 30 \<and> ijcringbuffer_is_empty drained8 \<and>
   ijcringbuffer_produce drained8 abc 3 = Inr (restart8, 1) \<and> 1 < unat (3::u32) \<and>
   data restart8 (unat (ijcringbuffer_peek restart8) + 1) = abc 1"
proof -
  have r: "reachable drained8" by (rule run_init_reachable [OF run_drained8])
  have h: "size_rb drained8 \<le> 2 ^ 30" "ijcringbuffer_is_empty drained8"
    "ijcringbuffer_produce drained8 abc 3 = Inr (restart8, 1)" "1 < unat (3::u32)"
    by (simp_all add: call_defs drained8_def restart8_def)
  from peek_after_produce_on_empty [OF r h] r h show ?thesis by simp
qed

text \<open>
  C3 as stated fails when the buffer already holds data: \<^verbatim>\<open>ijcringbuffer_peek\<close> points at the
  oldest unread byte, not at the bytes just written.
\<close>

theorem peek_after_produce_counterexample:
  "run_init zero_bytes 8 [Produce abc 3] = Inr abc8 \<and>
   ijcringbuffer_produce abc8 xyz 3 = Inr (abcxyz8, 1) \<and>
   data abcxyz8 (unat (ijcringbuffer_peek abcxyz8) + 0) = 97 \<and> xyz 0 = 120"
  by (simp add: run_abc8) (simp add: call_defs abc8_def abcxyz8_def data_defs)

section \<open>C4: the size formulas\<close>

text \<open>
  C4. In every reachable state the two size functions should return the value of the
  three-case formulas of the specification. With capacity 8, after
  \<^verbatim>\<open>produce(hex, 8); produce(hex, 0)\<close> the formulas give 0 for both sizes, and both functions
  fail the assertion \<^verbatim>\<open>size > difference(wrap_cursor, read_cursor)\<close> instead of returning.
\<close>

theorem consumeable_size_at_full_then_zero8:
  "run_init zero_bytes 8 [Produce hex 8, Produce hex 0] = Inr full_then_zero8 \<and>
   spec_consumable_size_continuous full_then_zero8 = 0 \<and>
   spec_consumable_size full_then_zero8 = 0 \<and>
   ijcringbuffer_consumeable_size_continuous full_then_zero8 = Inl AssertionFailed \<and>
   ijcringbuffer_consumeable_size full_then_zero8 = Inl AssertionFailed"
  by (simp add: run_full_then_zero8)
     (simp add: call_defs full_then_zero8_def spec_consumable_size_continuous_def
        spec_consumable_size_def spec_is_split_def spec_circular_distance_def)

text \<open>
  Outside the defect shown for C4, the size functions return the formulas of the
  specification: in every state reached with a capacity of at most \<open>2 ^ 29\<close> and without a
  zero-length \<^verbatim>\<open>produce\<close>, no assertion fails.
\<close>

theorem consumeable_size_formulas_design:
  assumes "reachable_nonzero s" and "size_rb s \<le> 2 ^ 29"
  shows "ijcringbuffer_consumeable_size_continuous s = Inr (spec_consumable_size_continuous s)"
    and "ijcringbuffer_consumeable_size s = Inr (spec_consumable_size s)"
  using cs_design [OF design_reachable [OF assms]]
  by (simp_all add: ijcringbuffer_consumeable_size_continuous_def
      ijcringbuffer_consumeable_size_def cs_spec)

section \<open>C5: how far consume moves the read cursor\<close>

text \<open>
  C5, amended. In every reachable state and for every \<open>n\<close> up to the continuous size:
  if the buffer is split and \<open>read_cursor = wrap_cursor\<close>, \<^verbatim>\<open>consume(n)\<close> advances \<open>read_cursor\<close>
  by \<open>size + (size - (read_cursor AND mask)) + n\<close>; afterwards \<open>read_cursor AND mask\<close> is
  \<open>n AND mask\<close>, which is \<open>n\<close> when \<open>n < size\<close> and 0 when \<open>n = size\<close>, the circular distance of
  the two cursors is at most \<open>size\<close>, and the buffer is no longer split. In every other case
  \<^verbatim>\<open>consume(n)\<close> advances \<open>read_cursor\<close> by \<open>n\<close>.
\<close>

theorem consume_advance:
  assumes reach: "reachable s"
    and c: "ijcringbuffer_consumeable_size_continuous s = Inr c" and n: "n \<le> c"
  shows "if ijcringbuffer__is_split s \<and> read_cursor s = wrap_cursor s
         then ijcringbuffer_consume s n =
                Inr (s\<lparr>read_cursor := read_cursor s
                        + (size_rb s + (size_rb s - (read_cursor s AND mask_rb s)) + n)\<rparr>)
              \<and> (read_cursor s + (size_rb s + (size_rb s - (read_cursor s AND mask_rb s)) + n))
                    AND mask_rb s = n AND mask_rb s
              \<and> (n < size_rb s \<longrightarrow> n AND mask_rb s = n)
              \<and> (n = size_rb s \<longrightarrow> n AND mask_rb s = 0)
              \<and> ijcringbuffer__difference
                   (read_cursor s + (size_rb s + (size_rb s - (read_cursor s AND mask_rb s)) + n))
                   (write_cursor s) \<le> size_rb s
              \<and> \<not> ijcringbuffer__is_split
                     (s\<lparr>read_cursor := read_cursor s
                         + (size_rb s + (size_rb s - (read_cursor s AND mask_rb s)) + n)\<rparr>)
         else ijcringbuffer_consume s n = Inr (s\<lparr>read_cursor := read_cursor s + n\<rparr>)"
proof (cases "ijcringbuffer__is_split s \<and> read_cursor s = wrap_cursor s")
  case False
  show ?thesis unfolding if_not_P [OF False] using consume_result [OF c n] False by auto
next
  case True
  let ?r' = "read_cursor s + (size_rb s + (size_rb s - (read_cursor s AND mask_rb s)) + n)"
  have inv: "cursor_inv s" using reach by (simp add: reachable_def reach_cursor_inv)
  note wf = cursor_invD(1) [OF inv]
  have 1: "ijcringbuffer_consume s n = Inr (s\<lparr>read_cursor := ?r'\<rparr>)"
    using consume_result [OF c n] True by simp
  have 2: "?r' AND mask_rb s = n AND mask_rb s" by (rule collapse_offset [OF wf])
  have 3: "n < size_rb s \<longrightarrow> n AND mask_rb s = n" using and_mask_below [OF wf] by blast
  have 4: "n = size_rb s \<longrightarrow> n AND mask_rb s = 0" using and_mask_size [OF wf] by blast
  have 6: "\<not> ijcringbuffer__is_split (s\<lparr>read_cursor := ?r'\<rparr>)"
    by (rule collapse_unsplit [OF inv _ _ 1]) (use True in simp_all)
  then have 5: "ijcringbuffer__difference ?r' (write_cursor s) \<le> size_rb s"
    by (simp add: ijcringbuffer__is_split_def not_less)
  show ?thesis unfolding if_P [OF True] using 1 2 3 4 5 6 by blast
qed

theorem consume_advance_witness:
  "reachable front_full8 \<and> ijcringbuffer_consumeable_size_continuous front_full8 = Inr 8 \<and>
   (3::u32) \<le> 8 \<and>
   ijcringbuffer__is_split front_full8 \<and> read_cursor front_full8 = wrap_cursor front_full8 \<and>
   ijcringbuffer_consume front_full8 3 = Inr (front_full8\<lparr>read_cursor := 19\<rparr>) \<and>
   (19::u32) AND mask_rb front_full8 = 3 \<and>
   ijcringbuffer__difference 19 (write_cursor front_full8) \<le> size_rb front_full8 \<and>
   \<not> ijcringbuffer__is_split (front_full8\<lparr>read_cursor := 19\<rparr>)"
proof -
  have r: "reachable front_full8" by (rule run_init_reachable [OF run_front_full8])
  have c: "ijcringbuffer_consumeable_size_continuous front_full8 = Inr 8"
    by (simp add: call_defs front_full8_def)
  have n: "(3::u32) \<le> 8" by simp
  have sp: "ijcringbuffer__is_split front_full8 \<and> read_cursor front_full8 = wrap_cursor front_full8"
    by (simp add: call_defs front_full8_def)
  have v: "read_cursor front_full8
             + (size_rb front_full8
                + (size_rb front_full8 - (read_cursor front_full8 AND mask_rb front_full8)) + 3) = 19"
    "(3::u32) AND mask_rb front_full8 = 3" "(19::u32) AND mask_rb front_full8 = 3"
    by (simp_all add: front_full8_def)
  note ca = consume_advance [OF r c n, unfolded if_P [OF sp] v(1)]
  show ?thesis using r c n sp v(3) ca by blast
qed

text \<open>
  C5 as stated fails when the front run fills the whole storage and is consumed at once:
  after \<^verbatim>\<open>consume(8)\<close> the physical offset of \<open>read_cursor\<close> is 0, not 8.
\<close>

theorem consume_collapse_counterexample:
  "run_init zero_bytes 8 [Produce hex 4, Consume 4, Produce hex 4, Produce hex 4] = Inr front_full8 \<and>
   ijcringbuffer__is_split front_full8 \<and> read_cursor front_full8 = wrap_cursor front_full8 \<and>
   ijcringbuffer_consumeable_size_continuous front_full8 = Inr 8 \<and>
   ijcringbuffer_consume front_full8 8 = Inr (front_full8\<lparr>read_cursor := 24\<rparr>) \<and>
   read_cursor (front_full8\<lparr>read_cursor := 24\<rparr>) AND mask_rb front_full8 = 0"
  by (simp add: run_front_full8) (simp add: call_defs front_full8_def)

section \<open>C6: the inflation of the write cursor\<close>

text \<open>
  C6. On the write-to-front path the inflation of \<open>write_cursor\<close> should leave
  \<open>write_cursor AND mask\<close> equal to \<open>n\<close>, as the code asserts, and the buffer split. With
  capacity 4, after \<^verbatim>\<open>produce(hex, 1); consume(1)\<close> the call \<^verbatim>\<open>produce(hex, 4)\<close> takes the
  auto-reset path (the buffer is empty, \<open>write_cursor AND mask = 1\<close>, \<open>size \<ge> 4\<close>); the inflated
  cursor has the physical offset 0, not 4, and the assertion fails.
\<close>

theorem inflation_at_drained4:
  "run_init zero_bytes 4 [Produce hex 1, Consume 1] = Inr drained4 \<and>
   \<not> ijcringbuffer__is_split drained4 \<and>
   write_cursor drained4 AND mask_rb drained4 \<noteq> 0 \<and>
   ijcringbuffer_is_empty drained4 \<and> size_rb drained4 \<ge> 4 \<and>
   (write_cursor drained4
      + (size_rb drained4 + (size_rb drained4 - (write_cursor drained4 AND mask_rb drained4)) + 4))
     AND mask_rb drained4 = 0 \<and>
   ijcringbuffer_produce drained4 hex 4 = Inl AssertionFailed"
  by (simp add: run_drained4) (simp add: call_defs drained4_def)

text \<open>
  Outside the defects shown for C6 (a length equal to the capacity on the auto-reset path,
  a zero length, a capacity above \<open>2 ^ 29\<close>), a \<^verbatim>\<open>produce\<close> that takes the write-to-front path
  returns 1, leaves \<open>write_cursor AND mask\<close> equal to \<open>n\<close>, and leaves the buffer split.
\<close>

theorem front_path_design:
  assumes reach: "reachable_nonzero s" and size: "size_rb s \<le> 2 ^ 29"
    and ns: "\<not> ijcringbuffer__is_split s" and n0: "n \<noteq> 0" and nS: "n \<noteq> size_rb s"
    and path: "(write_cursor s AND mask_rb s \<noteq> 0 \<and> ijcringbuffer_is_empty s \<and> n \<le> size_rb s)
               \<or> (((write_cursor s AND mask_rb s = 0 \<and> \<not> ijcringbuffer_is_empty s)
                     \<or> \<not> n \<le> size_rb s - (write_cursor s AND mask_rb s))
                   \<and> n \<le> read_cursor s AND mask_rb s)"
  shows "ijcringbuffer_produce s d n =
           Inr (s\<lparr>wrap_cursor := write_cursor s, data := memcpy (data s) 0 d (unat n),
                   write_cursor := write_cursor s
                     + (size_rb s + (size_rb s - (write_cursor s AND mask_rb s)) + n)\<rparr>, 1)"
    and "(write_cursor s + (size_rb s + (size_rb s - (write_cursor s AND mask_rb s)) + n))
           AND mask_rb s = n"
    and "ijcringbuffer__is_split
           (s\<lparr>wrap_cursor := write_cursor s, data := memcpy (data s) 0 d (unat n),
               write_cursor := write_cursor s
                 + (size_rb s + (size_rb s - (write_cursor s AND mask_rb s)) + n)\<rparr>)"
proof -
  note inv = design_reachable [OF reach size]
  note wf = design_invD(1) [OF inv]
  have un: "unsplit_inv s" using ns design_unsplit_iff [OF inv] by simp
  have pr: "phys s (read_cursor s) < cap s" by (rule phys_lt [OF wf])
  have nlt: "unat n < cap s"
  proof (cases "n \<le> size_rb s")
    case True
    then show ?thesis using nS by (simp add: word_le_nat_alt cap_def word_unat_eq_iff)
  next
    case False
    with path have "n \<le> read_cursor s AND mask_rb s" by blast
    then show ?thesis using pr by (simp add: word_le_nat_alt phys_def)
  qed
  have front: "write_to_front s d n =
           Inr (s\<lparr>wrap_cursor := write_cursor s, data := memcpy (data s) 0 d (unat n),
                   write_cursor := write_cursor s
                     + (size_rb s + (size_rb s - (write_cursor s AND mask_rb s)) + n)\<rparr>, 1)"
    by (rule write_to_front_ok [OF wf nlt])
  note pe = produce_not_split [OF ns, of d n]
  have e: "ijcringbuffer_is_empty s = (write_cursor s = read_cursor s)"
    by (simp add: ijcringbuffer_is_empty_def)
  have "ijcringbuffer_produce s d n = write_to_front s d n"
  proof (cases "write_cursor s AND mask_rb s \<noteq> 0 \<and> write_cursor s = read_cursor s
                  \<and> n \<le> size_rb s")
    case True
    show ?thesis by (simp only: pe if_P [OF True])
  next
    case False
    with path have p2: "((write_cursor s AND mask_rb s = 0 \<and> write_cursor s \<noteq> read_cursor s)
                     \<or> \<not> n \<le> size_rb s - (write_cursor s AND mask_rb s))"
      and rp: "n \<le> read_cursor s AND mask_rb s"
      unfolding e by blast+
    have "check_front s d n = write_to_front s d n" using rp by (simp add: check_front_def)
    then show ?thesis using p2 by (simp only: pe if_not_P [OF False]) auto
  qed
  then show "ijcringbuffer_produce s d n =
           Inr (s\<lparr>wrap_cursor := write_cursor s, data := memcpy (data s) 0 d (unat n),
                   write_cursor := write_cursor s
                     + (size_rb s + (size_rb s - (write_cursor s AND mask_rb s)) + n)\<rparr>, 1)"
    using front by simp
  have "phys s (write_cursor s + (size_rb s + (size_rb s - (write_cursor s AND mask_rb s)) + n))
      = unat n mod cap s"
    by (rule phys_front [OF wf])
  then show "(write_cursor s + (size_rb s + (size_rb s - (write_cursor s AND mask_rb s)) + n))
           AND mask_rb s = n"
    using nlt by (simp add: phys_def word_unat_eq_iff)
  have "if write_cursor s = read_cursor s then unat n < cap s
        else unat n \<le> phys s (read_cursor s)"
  proof (cases "write_cursor s = read_cursor s")
    case True
    then show ?thesis using nlt by simp
  next
    case False
    with path have "n \<le> read_cursor s AND mask_rb s" unfolding e by blast
    then show ?thesis using False by (simp add: word_le_nat_alt phys_def)
  qed
  then show "ijcringbuffer__is_split
           (s\<lparr>wrap_cursor := write_cursor s, data := memcpy (data s) 0 d (unat n),
               write_cursor := write_cursor s
                 + (size_rb s + (size_rb s - (write_cursor s AND mask_rb s)) + n)\<rparr>)"
    by (rule is_split_front [OF inv un n0])
qed

section \<open>C7: writing at the back\<close>

text \<open>
  C7, amended. In every reachable state that is not split, where the auto-reset shortcut does not
  apply and the buffer is not the case \<open>write_cursor AND mask = 0\<close> with data stored (the code
  then skips the back and goes to \<^verbatim>\<open>check_front\<close>), a call \<^verbatim>\<open>produce(data, n)\<close> with
  \<open>size - (write_cursor AND mask) \<ge> n\<close> copies the \<open>n\<close> bytes to the physical offset
  \<open>write_cursor AND mask\<close>, advances \<open>write_cursor\<close> by \<open>n\<close>, changes nothing else and returns 1;
  the bytes written end at or before the end of the storage.
\<close>

theorem produce_back:
  assumes "reachable s"
    and "\<not> ijcringbuffer__is_split s"
    and "\<not> (write_cursor s AND mask_rb s \<noteq> 0 \<and> ijcringbuffer_is_empty s \<and> size_rb s \<ge> n)"
    and "\<not> (write_cursor s AND mask_rb s = 0 \<and> \<not> ijcringbuffer_is_empty s)"
    and "size_rb s - (write_cursor s AND mask_rb s) \<ge> n"
  shows "ijcringbuffer_produce s d n =
           Inr (s\<lparr>data := memcpy (data s) (unat (write_cursor s AND mask_rb s)) d (unat n),
                  write_cursor := write_cursor s + n\<rparr>, 1)
         \<and> unat (write_cursor s AND mask_rb s) + unat n \<le> unat (size_rb s)"
proof -
  have wf: "well_formed s" using assms(1) by (simp add: reachable_def reach_well_formed)
  have "write_cursor s AND mask_rb s \<le> size_rb s"
    using and_mask_less_size [OF wf, of "write_cursor s"] by simp
  then have "unat (size_rb s - (write_cursor s AND mask_rb s))
      = unat (size_rb s) - unat (write_cursor s AND mask_rb s)"
    by (rule unat_sub)
  moreover have "unat (write_cursor s AND mask_rb s) < unat (size_rb s)"
    using and_mask_less_size [OF wf, of "write_cursor s"] by (simp add: word_less_nat_alt)
  ultimately have "unat (write_cursor s AND mask_rb s) + unat n \<le> unat (size_rb s)"
    using assms(5) by (simp add: word_le_nat_alt)
  moreover have "ijcringbuffer_produce s d n =
           Inr (s\<lparr>data := memcpy (data s) (unat (write_cursor s AND mask_rb s)) d (unat n),
                  write_cursor := write_cursor s + n\<rparr>, 1)"
    using assms(2-5) unfolding ijcringbuffer_produce_def Let_def by auto
  ultimately show ?thesis by simp
qed

theorem produce_back_witness:
  "reachable abc8 \<and> \<not> ijcringbuffer__is_split abc8 \<and>
   \<not> (write_cursor abc8 AND mask_rb abc8 \<noteq> 0 \<and> ijcringbuffer_is_empty abc8 \<and> size_rb abc8 \<ge> 3) \<and>
   \<not> (write_cursor abc8 AND mask_rb abc8 = 0 \<and> \<not> ijcringbuffer_is_empty abc8) \<and>
   size_rb abc8 - (write_cursor abc8 AND mask_rb abc8) \<ge> 3 \<and>
   ijcringbuffer_produce abc8 xyz 3 = Inr (abcxyz8, 1)"
proof -
  have r: "reachable abc8" by (rule run_init_reachable [OF run_abc8])
  have h: "\<not> ijcringbuffer__is_split abc8"
    "\<not> (write_cursor abc8 AND mask_rb abc8 \<noteq> 0 \<and> ijcringbuffer_is_empty abc8 \<and> size_rb abc8 \<ge> 3)"
    "\<not> (write_cursor abc8 AND mask_rb abc8 = 0 \<and> \<not> ijcringbuffer_is_empty abc8)"
    "size_rb abc8 - (write_cursor abc8 AND mask_rb abc8) \<ge> 3"
    by (simp_all add: call_defs abc8_def)
  have "abc8\<lparr>data := memcpy (data abc8) (unat (write_cursor abc8 AND mask_rb abc8)) xyz (unat (3::u32)),
             write_cursor := write_cursor abc8 + 3\<rparr> = abcxyz8"
    by (simp add: abc8_def abcxyz8_def)
  with produce_back [OF r h, of xyz] r h show ?thesis by simp
qed

text \<open>
  C7 as stated fails on a full buffer: \<open>write_cursor AND mask = 0\<close> and
  \<open>size - 0 \<ge> 1\<close>, the auto-reset does not apply, and \<^verbatim>\<open>produce(hex, 1)\<close> returns 0.
\<close>

theorem produce_back_counterexample:
  "run_init zero_bytes 8 [Produce hex 8] = Inr full8 \<and>
   \<not> ijcringbuffer__is_split full8 \<and>
   \<not> (write_cursor full8 AND mask_rb full8 \<noteq> 0 \<and> ijcringbuffer_is_empty full8 \<and> size_rb full8 \<ge> 1) \<and>
   size_rb full8 - (write_cursor full8 AND mask_rb full8) \<ge> 1 \<and>
   ijcringbuffer_produce full8 hex 1 = Inr (full8, 0)"
  by (simp add: run_full8) (simp add: call_defs full8_def)

section \<open>C8: peek\<close>

text \<open>
  C8. In every reachable state \<^verbatim>\<open>ijcringbuffer_peek\<close> returns the storage pointer advanced by
  \<open>read_cursor AND mask\<close>, except when the buffer is split and \<open>read_cursor = wrap_cursor\<close>,
  where it returns the pointer advanced by 0. The offset is below the capacity, also when
  the buffer is empty. The function is a function of the state alone and returns the offset
  alone: it writes neither a cursor nor a byte.
\<close>

theorem peek_offset:
  assumes "reachable s"
  shows "ijcringbuffer_peek s =
           (if ijcringbuffer__is_split s \<and> read_cursor s = wrap_cursor s then 0
            else read_cursor s AND mask_rb s)
         \<and> ijcringbuffer_peek s < size_rb s"
proof -
  have wf: "well_formed s" using assms by (simp add: reachable_def reach_well_formed)
  then have "0 < size_rb s" by (simp add: well_formed_def word_greater_zero_iff)
  with and_mask_less_size [OF wf] show ?thesis
    by (auto simp: ijcringbuffer_peek_def)
qed

theorem peek_offset_witness:
  "reachable front_full8 \<and> ijcringbuffer__is_split front_full8 \<and>
   read_cursor front_full8 = wrap_cursor front_full8 \<and>
   ijcringbuffer_peek front_full8 = 0 \<and> ijcringbuffer_peek front_full8 < size_rb front_full8"
proof -
  have r: "reachable front_full8" by (rule run_init_reachable [OF run_front_full8])
  have sp: "ijcringbuffer__is_split front_full8 \<and> read_cursor front_full8 = wrap_cursor front_full8"
    by (simp add: call_defs front_full8_def)
  have p0: "ijcringbuffer_peek front_full8 = 0" using peek_offset [OF r] sp by simp
  have plt: "ijcringbuffer_peek front_full8 < size_rb front_full8"
    using peek_offset [OF r] by (rule conjunct2)
  show ?thesis using r sp p0 plt by blast
qed

section \<open>C9: size zero and emptiness\<close>

text \<open>
  C9. In every reachable state \<^verbatim>\<open>consumeable_size\<close> should be 0 exactly when \<^verbatim>\<open>is_empty\<close> holds,
  and be nonzero whenever the buffer is split. With capacity 4, after
  \<^verbatim>\<open>produce(hex, 4); produce(hex, 0)\<close> the buffer is split and not empty, the value computed
  by \<^verbatim>\<open>consumeable_size\<close> is 0, and the function fails its first assertion.
\<close>

theorem is_empty_at_full_then_zero4:
  "run_init zero_bytes 4 [Produce hex 4, Produce hex 0] = Inr full_then_zero4 \<and>
   \<not> ijcringbuffer_is_empty full_then_zero4 \<and>
   ijcringbuffer__is_split full_then_zero4 \<and>
   consumeable_size_cs full_then_zero4 False = 0 \<and>
   ijcringbuffer_consumeable_size full_then_zero4 = Inl AssertionFailed"
  by (simp add: run_full_then_zero4) (simp add: call_defs full_then_zero4_def)

text \<open>
  Outside the defect shown for C9, the size is 0 exactly when the buffer is empty, and a
  split buffer has a nonzero size.
\<close>

theorem consumeable_size_zero_design:
  assumes "reachable_nonzero s" and "size_rb s \<le> 2 ^ 29"
  shows "(ijcringbuffer_consumeable_size s = Inr 0) = ijcringbuffer_is_empty s"
    and "ijcringbuffer__is_split s \<Longrightarrow> ijcringbuffer_consumeable_size s \<noteq> Inr 0"
proof -
  note inv = design_reachable [OF assms]
  note wf = design_invD(1) [OF inv]
  have r: "ijcringbuffer_consumeable_size s = Inr (consumeable_size_cs s False)"
    using cs_design [OF inv] by (simp add: ijcringbuffer_consumeable_size_def)
  have split_pos: "consumeable_size_cs s False \<noteq> 0 \<and> write_cursor s \<noteq> read_cursor s"
    if sp: "split_inv s"
  proof -
    have "unat (consumeable_size_cs s False) = tail_len s + front_len s"
      using cs_total_unat [OF inv] sp by simp
    moreover have "1 \<le> front_len s" using split_bounds(3) [OF wf sp] .
    ultimately have "consumeable_size_cs s False \<noteq> 0" by auto
    moreover have "ijcringbuffer__is_split s" using sp design_split_iff [OF inv] by simp
    then have "write_cursor s \<noteq> read_cursor s" by (auto simp: is_split_iff)
    ultimately show ?thesis by simp
  qed
  show "(ijcringbuffer_consumeable_size s = Inr 0) = ijcringbuffer_is_empty s"
  proof (cases "split_inv s")
    case True
    then show ?thesis using split_pos r by (simp add: ijcringbuffer_is_empty_def)
  next
    case False
    then have "\<not> ijcringbuffer__is_split s" using design_split_iff [OF inv] by simp
    then show ?thesis using r by (simp add: consumeable_size_cs_def ijcringbuffer_is_empty_def)
  qed
  show "ijcringbuffer_consumeable_size s \<noteq> Inr 0" if "ijcringbuffer__is_split s"
    using that split_pos r design_split_iff [OF inv] by simp
qed

section \<open>C10: consume lowers the size\<close>

text \<open>
  C10. After \<^verbatim>\<open>consume(n)\<close> with \<open>n\<close> at most the continuous size, \<^verbatim>\<open>consumeable_size\<close> should
  be its value before the call minus \<open>n\<close>. With capacity 8, after
  \<^verbatim>\<open>produce(hex, 8); consume(3); produce(hex, 0)\<close> both sizes are 5; \<^verbatim>\<open>consume(5)\<close> passes its
  assertion, and afterwards \<^verbatim>\<open>consumeable_size\<close> returns 8, not 0.
\<close>

theorem consume_at_tail5_8:
  "run_init zero_bytes 8 [Produce hex 8, Consume 3, Produce hex 0] = Inr tail5_8 \<and>
   ijcringbuffer_consumeable_size_continuous tail5_8 = Inr 5 \<and>
   ijcringbuffer_consumeable_size tail5_8 = Inr 5 \<and>
   ijcringbuffer_consume tail5_8 5 = Inr tail0_8 \<and>
   ijcringbuffer_consumeable_size tail0_8 = Inr 8"
  by (simp add: run_tail5_8) (simp add: call_defs tail5_8_def tail0_8_def)

text \<open>
  Outside the defect shown for C10, \<^verbatim>\<open>consume(n)\<close> lowers the size by \<open>n\<close>, in the ordinary
  branch and in the branch that collapses the split.
\<close>

theorem consume_size_design:
  assumes reach: "reachable_nonzero s" and size: "size_rb s \<le> 2 ^ 29"
    and c: "ijcringbuffer_consumeable_size_continuous s = Inr c" and n: "n \<le> c"
  shows "\<exists>s' v. ijcringbuffer_consume s n = Inr s' \<and> ijcringbuffer_consumeable_size s = Inr v
               \<and> ijcringbuffer_consumeable_size s' = Inr (v - n)"
proof -
  note inv = design_reachable [OF reach size]
  note wf = design_invD(1) [OF inv]
  obtain s' where cons: "ijcringbuffer_consume s n = Inr s'"
    using consume_result [OF c n] by blast
  have inv': "design_inv s'" by (rule consume_preserves [OF inv cons])
  have v: "ijcringbuffer_consumeable_size s = Inr (consumeable_size_cs s False)"
    using cs_design [OF inv] by (simp add: ijcringbuffer_consumeable_size_def)
  have v': "ijcringbuffer_consumeable_size s' = Inr (consumeable_size_cs s' False)"
    using cs_design [OF inv'] by (simp add: ijcringbuffer_consumeable_size_def)
  have "consumeable_size_cs s' False = consumeable_size_cs s False - n"
    using inv cons
  proof (cases rule: consume_cases)
    case unsplit
    then have "\<not> ijcringbuffer__is_split s" "\<not> ijcringbuffer__is_split s'"
      using unsplit_not_split by blast+
    then show ?thesis using unsplit(3) by (simp add: consumeable_size_cs_def)
  next
    case tail
    have split: "ijcringbuffer__is_split s" "ijcringbuffer__is_split s'"
      using tail(1,5) design_split_iff inv inv' by blast+
    have F: "unat (write_cursor s AND mask_rb s) = front_len s"
      by (rule split_tail_facts(2) [OF inv tail(1,2)])
    have m: "(wrap_cursor s - read_cursor s) AND mask_rb s = wrap_cursor s - read_cursor s"
      by (rule split_tail_facts(1) [OF inv tail(1,2)])
    have old: "consumeable_size_cs s False
        = (wrap_cursor s - read_cursor s) + (write_cursor s AND mask_rb s)"
      using split(1) tail(2) m by (simp add: consumeable_size_cs_def)
    show ?thesis
    proof (cases "read_cursor s + n = wrap_cursor s")
      case True
      have "1 \<le> front_len s" using split_bounds(3) [OF wf tail(1)] .
      then have "write_cursor s AND mask_rb s \<noteq> 0" using F by auto
      then have "consumeable_size_cs s' False = write_cursor s AND mask_rb s"
        using split(2) True tail(4) by (simp add: consumeable_size_cs_def Let_def)
      moreover have "wrap_cursor s - read_cursor s = n" by (simp add: True [symmetric])
      ultimately show ?thesis using old by simp
    next
      case False
      have ne': "read_cursor s' \<noteq> wrap_cursor s'" using False tail(4) by simp
      have "(wrap_cursor s' - read_cursor s') AND mask_rb s' = wrap_cursor s' - read_cursor s'"
        by (rule split_tail_facts(1) [OF inv' tail(5) ne'])
      then have "consumeable_size_cs s' False
          = (wrap_cursor s' - read_cursor s') + (write_cursor s' AND mask_rb s')"
        using split(2) ne' by (simp add: consumeable_size_cs_def)
      then show ?thesis using old tail(4) by simp
    qed
  next
    case drained
    have split: "ijcringbuffer__is_split s" using drained(1) design_split_iff inv by blast
    have ns: "\<not> ijcringbuffer__is_split s'" using drained(5) by (rule unsplit_not_split)
    define F where "F = write_cursor s - wrap_cursor s - 2 * size_rb s + (wrap_cursor s AND mask_rb s)"
    have "unat (consumeable_size_cs s False) = front_len s"
      using split_drained_facts [OF inv drained(1,2)] split drained(2)
      by (simp add: consumeable_size_cs_def Let_def)
    then have old: "consumeable_size_cs s False = F"
      by (simp add: word_unat_eq_iff F_def front_len_def)
    have "write_cursor s - (read_cursor s
              + (size_rb s + (size_rb s - (read_cursor s AND mask_rb s)) + n)) = F - n"
      by (simp add: F_def drained(2))
    then have "consumeable_size_cs s' False = F - n"
      using ns drained(4) by (simp add: consumeable_size_cs_def)
    then show ?thesis using old by simp
  qed
  then show ?thesis using cons v v' by simp
qed

section \<open>Capacities above the design limit\<close>

text \<open>
  The split is read off the circular distance of the two cursors, which never exceeds
  \<open>2 ^ 31\<close>, and the inflation adds up to three times the capacity. With capacity \<open>2 ^ 30\<close> a
  buffer filled through the front is not seen as split, and the size functions fail their
  assertion; with capacity \<open>2 ^ 31\<close> the inflation of an auto-reset wraps around to nothing,
  and a \<^verbatim>\<open>produce\<close> that returned 1 leaves the buffer empty.
\<close>

theorem capacity_2_30_not_split:
  "run_init zero_bytes (2 ^ 30) [Produce hex (2 ^ 30), Consume 1, Produce hex 1] = Inr wide30 \<and>
   \<not> ijcringbuffer__is_split wide30 \<and>
   consumeable_size_cs wide30 False = 3221225472 \<and>
   ijcringbuffer_consumeable_size wide30 = Inl AssertionFailed"
  by (simp add: call_defs wide30_def)

theorem capacity_2_31_round_trip:
  "run_init zero_bytes (2 ^ 31) [Produce hex 1, Consume 1] = Inr drained31 \<and>
   ijcringbuffer_is_empty drained31 \<and>
   ijcringbuffer_produce drained31 abc 1 = Inr (wide31, 1) \<and>
   ijcringbuffer_is_empty wide31 \<and>
   data wide31 (unat (ijcringbuffer_peek wide31) + 0) = 0 \<and> abc 0 = 97"
proof -
  have "run_init zero_bytes (2 ^ 31) [Produce hex 1, Consume 1] = Inr drained31"
    and "ijcringbuffer_is_empty drained31"
    and "ijcringbuffer_produce drained31 abc 1 = Inr (wide31, 1)"
    and "ijcringbuffer_is_empty wide31"
    by (simp_all add: call_defs drained31_def wide31_def)
  moreover have "data wide31 (unat (ijcringbuffer_peek wide31) + 0) = 0" and "abc 0 = 97"
    by (simp_all add: ijcringbuffer_peek_def ijcringbuffer__is_split_def
        ijcringbuffer__difference_def wide31_def data_defs)
  ultimately show ?thesis by blast
qed

end
